theory Spec2Isabelle
  imports Complex_Main
begin

section \<open>JavaScript numbers\<close>

text \<open>
  The camera screen computes with JavaScript numbers. A finite number is modelled by the
  real it denotes (rounding and overflow of the 64-bit format are not modelled); the three
  special values are kept, because a division by zero in JavaScript does not throw: it
  yields an infinity or NaN. All zeros that occur are non-negative (dimensions and
  constants), so the sign of zero is not modelled.
\<close>

datatype jsnum = Num real | PInf | NInf | NaN

fun js_neg :: "jsnum \<Rightarrow> jsnum" where
  "js_neg (Num a) = Num (- a)"
| "js_neg PInf = NInf"
| "js_neg NInf = PInf"
| "js_neg NaN = NaN"

fun js_add :: "jsnum \<Rightarrow> jsnum \<Rightarrow> jsnum" where
  "js_add NaN _ = NaN"
| "js_add _ NaN = NaN"
| "js_add (Num a) (Num b) = Num (a + b)"
| "js_add (Num a) PInf = PInf"
| "js_add (Num a) NInf = NInf"
| "js_add PInf (Num b) = PInf"
| "js_add NInf (Num b) = NInf"
| "js_add PInf PInf = PInf"
| "js_add NInf NInf = NInf"
| "js_add PInf NInf = NaN"
| "js_add NInf PInf = NaN"

definition js_sub :: "jsnum \<Rightarrow> jsnum \<Rightarrow> jsnum" where
  "js_sub a b = js_add a (js_neg b)"

fun js_mul :: "jsnum \<Rightarrow> jsnum \<Rightarrow> jsnum" where
  "js_mul NaN _ = NaN"
| "js_mul _ NaN = NaN"
| "js_mul (Num a) (Num b) = Num (a * b)"
| "js_mul (Num a) PInf = (if a = 0 then NaN else if 0 < a then PInf else NInf)"
| "js_mul (Num a) NInf = (if a = 0 then NaN else if 0 < a then NInf else PInf)"
| "js_mul PInf (Num b) = (if b = 0 then NaN else if 0 < b then PInf else NInf)"
| "js_mul NInf (Num b) = (if b = 0 then NaN else if 0 < b then NInf else PInf)"
| "js_mul PInf PInf = PInf"
| "js_mul NInf NInf = PInf"
| "js_mul PInf NInf = NInf"
| "js_mul NInf PInf = NInf"

fun js_div :: "jsnum \<Rightarrow> jsnum \<Rightarrow> jsnum" where
  "js_div NaN _ = NaN"
| "js_div _ NaN = NaN"
| "js_div (Num a) (Num b) =
     (if b \<noteq> 0 then Num (a / b)
      else if a = 0 then NaN else if 0 < a then PInf else NInf)"
| "js_div (Num a) PInf = Num 0"
| "js_div (Num a) NInf = Num 0"
| "js_div PInf (Num b) = (if 0 \<le> b then PInf else NInf)"
| "js_div NInf (Num b) = (if 0 \<le> b then NInf else PInf)"
| "js_div PInf PInf = NaN"
| "js_div NInf NInf = NaN"
| "js_div PInf NInf = NaN"
| "js_div NInf PInf = NaN"

text \<open>\<^verbatim>\<open>Math.max\<close> of two arguments: NaN if either is NaN.\<close>

fun js_max :: "jsnum \<Rightarrow> jsnum \<Rightarrow> jsnum" where
  "js_max NaN _ = NaN"
| "js_max _ NaN = NaN"
| "js_max PInf _ = PInf"
| "js_max _ PInf = PInf"
| "js_max NInf b = b"
| "js_max a NInf = a"
| "js_max (Num a) (Num b) = Num (max a b)"

fun finite_num :: "jsnum \<Rightarrow> bool" where
  "finite_num (Num a) = True"
| "finite_num _ = False"

section \<open>Data of the camera screen\<close>

text \<open>
  What the screen reads from its platform: the window dimensions
  (\<^verbatim>\<open>Dimensions.get('window')\<close>), whether \<^verbatim>\<open>cameraRef.current\<close> is set, and the
  message of the error with which an aborted \<^verbatim>\<open>fetch\<close> rejects.
\<close>

record platform =
  SCREEN_WIDTH :: real
  SCREEN_HEIGHT :: real
  cameraRef :: bool
  abortMessage :: string

text \<open>The object \<^verbatim>\<open>takePictureAsync\<close> resolves with (its \<^verbatim>\<open>uri\<close> plays no role).\<close>

record photo =
  width :: real
  height :: real

text \<open>
  \<^verbatim>\<open>best_match\<close> of a response body. \<^verbatim>\<open>bbox\<close> is an array of numbers when present;
  \<^verbatim>\<open>confidence\<close> and \<^verbatim>\<open>bbox\<close> are absent in the object the screen itself builds for
  "No Match".
\<close>

record match =
  label :: string
  confidence :: "real option"
  bbox :: "real list option"
  details :: "(string \<times> string) list"

text \<open>
  The parsed body: \<^verbatim>\<open>skipped\<close>, \<^verbatim>\<open>metrics?.fps\<close> and \<^verbatim>\<open>best_match\<close>, each possibly absent.
\<close>

record data =
  skipped :: bool
  metrics_fps :: "real option"
  best_match :: "match option"

text \<open>
  A response: \<^verbatim>\<open>ok\<close>, the decimal text of \<^verbatim>\<open>status\<close> (as the template literal prints
  it), and what \<^verbatim>\<open>response.json()\<close> settles with (\<open>Inl\<close>: it rejects with that message).
\<close>

record response =
  ok :: bool
  status :: string
  json :: "string + data"

datatype js_error = Error string | AbortError string

fun message :: "js_error \<Rightarrow> string" where
  "message (Error m) = m"
| "message (AbortError m) = m"

text \<open>
  The network as seen from one \<^verbatim>\<open>fetch\<close> call: the transport settles after so many
  milliseconds, by rejecting or by resolving with a response, or it never settles.
\<close>

datatype reply = Rejects string | Resolves response

datatype network = Settles nat reply | Hangs

text \<open>
  The lines of the data stream. Each constructor stands for one template literal or
  string literal of the source:
  \<^verbatim>\<open>"SYSTEM INITIALIZED..."\<close>, \<^verbatim>\<open>"SENSORS ONLINE"\<close>, \<^verbatim>\<open>`FPS: ${fps.toFixed(1)}`\<close>,
  \<^verbatim>\<open>`DETECTED: ${match.label.toUpperCase()}`\<close>, \<^verbatim>\<open>`PROCESSING: ${processingTime}ms`\<close>,
  \<^verbatim>\<open>`ERROR: ${error.message.substring(0, 20)}`\<close> (the argument is the substring),
  \<^verbatim>\<open>"AUTO-SCAN ENABLED"\<close>, \<^verbatim>\<open>"MANUAL MODE"\<close>.
\<close>

datatype log_entry =
    SYSTEM_INITIALIZED
  | SENSORS_ONLINE
  | FPS real
  | DETECTED string
  | PROCESSING int
  | ERROR string
  | AUTO_SCAN_ENABLED
  | MANUAL_MODE

text \<open>
  Calls the screen makes to the feedback and dialog APIs:
  \<^verbatim>\<open>Haptics.impactAsync(Light)\<close>, \<^verbatim>\<open>Haptics.notificationAsync(Success)\<close>,
  \<^verbatim>\<open>speak(`Target Confirmed. ${match.label}`)\<close> and \<^verbatim>\<open>Alert.alert("Connection Error", ...)\<close>.
\<close>

datatype effect = ImpactLight | NotificationSuccess | Speak string | Alert

record active_box =
  box :: "jsnum list"
  box_label :: string

text \<open>
  The \<^verbatim>\<open>useState\<close> cells of \<^verbatim>\<open>CameraScreen\<close> that scanning reads or writes
  (\<^verbatim>\<open>zoom\<close> and \<^verbatim>\<open>torch\<close> are independent of it), and the trace of calls emitted so far.
\<close>

record session =
  scanning :: bool
  result :: "match option"
  isAutoScan :: bool
  isConnected :: bool
  logs :: "log_entry list"
  frameCounter :: nat
  fps :: real
  activeBox :: "active_box option"
  emitted :: "effect list"

definition initial :: session where
  "initial = \<lparr>scanning = False, result = None, isAutoScan = False, isConnected = True,
     logs = [SYSTEM_INITIALIZED, SENSORS_ONLINE], frameCounter = 0, fps = 0,
     activeBox = None, emitted = []\<rparr>"

text \<open>
  \<^verbatim>\<open>processFrame\<close> is created anew by every render and reads \<^verbatim>\<open>scanning\<close>,
  \<^verbatim>\<open>isAutoScan\<close> and \<^verbatim>\<open>frameCounter\<close> as that render bound them; the setters act on
  the current state.
\<close>

record render =
  r_scanning :: bool
  r_isAutoScan :: bool
  r_frameCounter :: nat

definition render_of :: "session \<Rightarrow> render" where
  "render_of s = \<lparr>r_scanning = scanning s, r_isAutoScan = isAutoScan s,
     r_frameCounter = frameCounter s\<rparr>"

section \<open>The log\<close>

definition addLog :: "'a \<Rightarrow> 'a list \<Rightarrow> 'a list" where
  "addLog text prev = take 6 (text # prev)"

definition setLogs :: "log_entry \<Rightarrow> session \<Rightarrow> session" where
  "setLogs text s = s\<lparr>logs := addLog text (logs s)\<rparr>"

definition emit :: "effect \<Rightarrow> session \<Rightarrow> session" where
  "emit e s = s\<lparr>emitted := emitted s @ [e]\<rparr>"

section \<open>The cover transform\<close>

definition scale :: "platform \<Rightarrow> photo \<Rightarrow> jsnum" where
  "scale pf p = js_max (js_div (Num (SCREEN_WIDTH pf)) (Num (width p)))
                       (js_div (Num (SCREEN_HEIGHT pf)) (Num (height p)))"

definition scaledWidth :: "platform \<Rightarrow> photo \<Rightarrow> jsnum" where
  "scaledWidth pf p = js_mul (Num (width p)) (scale pf p)"

definition scaledHeight :: "platform \<Rightarrow> photo \<Rightarrow> jsnum" where
  "scaledHeight pf p = js_mul (Num (height p)) (scale pf p)"

definition offsetX :: "platform \<Rightarrow> photo \<Rightarrow> jsnum" where
  "offsetX pf p = js_div (js_sub (Num (SCREEN_WIDTH pf)) (scaledWidth pf p)) (Num 2)"

definition offsetY :: "platform \<Rightarrow> photo \<Rightarrow> jsnum" where
  "offsetY pf p = js_div (js_sub (Num (SCREEN_HEIGHT pf)) (scaledHeight pf p)) (Num 2)"

text \<open>
  Array destructuring \<^verbatim>\<open>const [bx1, by1, bx2, by2] = match.bbox\<close>: a missing element is
  \<^verbatim>\<open>undefined\<close>, which the arithmetic turns into NaN.
\<close>

definition element :: "real list \<Rightarrow> nat \<Rightarrow> jsnum" where
  "element b i = (if i < length b then Num (b ! i) else NaN)"

definition scaledBox :: "platform \<Rightarrow> photo \<Rightarrow> real list \<Rightarrow> jsnum list" where
  "scaledBox pf p b =
     [js_add (js_mul (element b 0) (scale pf p)) (offsetX pf p),
      js_add (js_mul (element b 1) (scale pf p)) (offsetY pf p),
      js_add (js_mul (element b 2) (scale pf p)) (offsetX pf p),
      js_add (js_mul (element b 3) (scale pf p)) (offsetY pf p)]"

section \<open>processFrame\<close>

text \<open>The synchronous prefix, up to the call of \<^verbatim>\<open>takePictureAsync\<close>. \<open>None\<close>: it returned.\<close>

definition processFrame_begin :: "platform \<Rightarrow> render \<Rightarrow> bool \<Rightarrow> session \<Rightarrow> session option" where
  "processFrame_begin pf r isManualScan s =
     (if \<not> cameraRef pf then None
      else if r_scanning r \<and> \<not> r_isAutoScan r then None
      else Some (let s1 = s\<lparr>scanning := True\<rparr>;
                     s2 = (if isManualScan then s1\<lparr>result := None\<rparr> else s1)
                 in if isManualScan then emit ImpactLight s2 else s2))"

datatype endpoint = PREDICT_ENDPOINT | STREAM_ENDPOINT

record request =
  endpoint :: endpoint
  fileName :: string
  frame_idx :: "nat option"
  timeoutMs :: nat

definition build_request :: "render \<Rightarrow> request" where
  "build_request r =
     \<lparr>endpoint = (if r_isAutoScan r then STREAM_ENDPOINT else PREDICT_ENDPOINT),
      fileName = (if r_isAutoScan r then ''frame.jpg'' else ''scan.jpg''),
      frame_idx = (if r_isAutoScan r then Some (r_frameCounter r) else None),
      timeoutMs = (if r_isAutoScan r then 5000 else 15000)\<rparr>"

text \<open>
  \<^verbatim>\<open>fetch\<close> under the abort timer: the timer aborts the request when the transport has
  not settled before \<^verbatim>\<open>timeoutMs\<close>; the call then rejects with the abort error.
  \<open>fetch_duration\<close> is the time after which the call settles.
\<close>

definition fetch :: "platform \<Rightarrow> request \<Rightarrow> network \<Rightarrow> js_error + response" where
  "fetch pf req n =
     (case n of
        Hangs \<Rightarrow> Inl (AbortError (abortMessage pf))
      | Settles t r \<Rightarrow>
          if t < timeoutMs req
          then (case r of Rejects m \<Rightarrow> Inl (Error m) | Resolves resp \<Rightarrow> Inr resp)
          else Inl (AbortError (abortMessage pf)))"

definition fetch_duration :: "request \<Rightarrow> network \<Rightarrow> nat" where
  "fetch_duration req n =
     (case n of Hangs \<Rightarrow> timeoutMs req
      | Settles t r \<Rightarrow> if t < timeoutMs req then t else timeoutMs req)"

text \<open>The \<^verbatim>\<open>catch\<close> and \<^verbatim>\<open>finally\<close> blocks.\<close>

definition processFrame_catch :: "bool \<Rightarrow> js_error \<Rightarrow> session \<Rightarrow> session" where
  "processFrame_catch isManualScan e s =
     (let s1 = s\<lparr>isConnected := False\<rparr>;
          s2 = setLogs (ERROR (take 20 (message e))) s1
      in if isManualScan then emit Alert s2 else s2)"

definition processFrame_finally :: "session \<Rightarrow> session" where
  "processFrame_finally s = s\<lparr>scanning := False\<rparr>"

text \<open>The object set as result when the body has no \<^verbatim>\<open>best_match\<close>.\<close>

definition noMatch :: match where
  "noMatch = \<lparr>label = ''No Match'', confidence = None, bbox = None,
     details = [(''emoji'', [CHR 0xF0, CHR 0x9F, CHR 0xA4, CHR 0x94]),
                (''fact'', ''Sensors calibrating...'')]\<rparr>"

text \<open>
  The \<^verbatim>\<open>try\<close> block after \<^verbatim>\<open>response.json()\<close> has resolved with \<open>d\<close>. \<open>p\<close> is the
  photo of this call, \<open>processingTime\<close> is \<^verbatim>\<open>Date.now() - startTime\<close> and \<open>rnd\<close> the
  value of \<^verbatim>\<open>Math.random()\<close>.
\<close>

definition processFrame_data ::
  "platform \<Rightarrow> render \<Rightarrow> bool \<Rightarrow> photo \<Rightarrow> data \<Rightarrow> int \<Rightarrow> real \<Rightarrow> session \<Rightarrow> session" where
  "processFrame_data pf r isManualScan p d processingTime rnd s =
     (if skipped d then (s\<lparr>scanning := False\<rparr>)\<lparr>frameCounter := frameCounter s + 1\<rparr>
      else
        let s1 = (case metrics_fps d of
                    Some f \<Rightarrow> if r_isAutoScan r \<and> f \<noteq> 0
                               then setLogs (FPS f) (s\<lparr>fps := f\<rparr>) else s
                  | None \<Rightarrow> s);
            s2 = (case best_match d of
                    Some m \<Rightarrow>
                      let a = s1\<lparr>result := Some m\<rparr>;
                          b = (case bbox m of
                                 Some bb \<Rightarrow> a\<lparr>activeBox :=
                                     Some \<lparr>box = scaledBox pf p bb, box_label = label m\<rparr>\<rparr>
                               | None \<Rightarrow> a);
                          c = emit NotificationSuccess b;
                          e = (if isManualScan \<or> (r_isAutoScan r \<and> 0.9 < rnd)
                               then emit (Speak (label m)) c else c)
                      in if r_isAutoScan r then setLogs (DETECTED (label m)) e else e
                  | None \<Rightarrow> (s1\<lparr>result := Some noMatch\<rparr>)\<lparr>activeBox := None\<rparr>);
            s3 = (if r_isAutoScan r then s2\<lparr>frameCounter := frameCounter s2 + 1\<rparr> else s2)
        in if r_isAutoScan r \<and> processingTime < 100
           then setLogs (PROCESSING processingTime) s3 else s3)"

text \<open>
  What one call of \<^verbatim>\<open>processFrame\<close> meets: what \<^verbatim>\<open>takePictureAsync\<close> settles with
  (\<open>Inl\<close>: it rejects with that message), the network, the two readings of
  \<^verbatim>\<open>Date.now()\<close> and the value of \<^verbatim>\<open>Math.random()\<close>.
\<close>

record world =
  capture :: "string + photo"
  net :: network
  startTime :: int
  endTime :: int
  random :: real

text \<open>The way one call left the function.\<close>

datatype path = Returned | Skipped | Completed | Caught js_error

definition failed :: "bool \<Rightarrow> js_error \<Rightarrow> session \<Rightarrow> path \<times> session" where
  "failed isManualScan e s = (Caught e, processFrame_finally (processFrame_catch isManualScan e s))"

text \<open>One call, run from its start to its end with no other update in between.\<close>

definition processFrame :: "platform \<Rightarrow> render \<Rightarrow> bool \<Rightarrow> world \<Rightarrow> session \<Rightarrow> path \<times> session" where
  "processFrame pf r isManualScan w s =
     (case processFrame_begin pf r isManualScan s of
        None \<Rightarrow> (Returned, s)
      | Some s1 \<Rightarrow>
          (case capture w of
             Inl m \<Rightarrow> failed isManualScan (Error m) s1
           | Inr p \<Rightarrow>
               (case fetch pf (build_request r) (net w) of
                  Inl e \<Rightarrow> failed isManualScan e s1
                | Inr resp \<Rightarrow>
                    if \<not> ok resp then failed isManualScan (Error (''Status: '' @ status resp)) s1
                    else
                      let s2 = s1\<lparr>isConnected := True\<rparr> in
                      (case json resp of
                         Inl m \<Rightarrow> failed isManualScan (Error m) s2
                       | Inr d \<Rightarrow>
                           (if skipped d then Skipped else Completed,
                            processFrame_finally
                              (processFrame_data pf r isManualScan p d
                                 (endTime w - startTime w) (random w) s2))))))"

section \<open>The auto-scan effect and the event loop\<close>

definition targetInterval :: real where
  "targetInterval = 1000 / 15"

text \<open>
  One run of the effect on \<^verbatim>\<open>isAutoScan\<close>: its variables \<^verbatim>\<open>isActive\<close> and
  \<^verbatim>\<open>lastFrameTime\<close>, the render whose \<^verbatim>\<open>isAutoScan\<close> and \<^verbatim>\<open>processFrame\<close> it closed
  over, and where its \<^verbatim>\<open>loop\<close> stands: suspended at \<^verbatim>\<open>await processFrame(false)\<close> on a
  call while holding \<^verbatim>\<open>delay\<close>, waiting for the timer of \<^verbatim>\<open>setTimeout(loop, delay)\<close> (the
  argument is the time from which it may fire), or not running.
\<close>

datatype loop_pc = Awaiting nat real | TimerArmed real | Finished

record loop_inst =
  isActive :: bool
  l_render :: render
  lastFrameTime :: int
  pc :: loop_pc

text \<open>
  A call of \<^verbatim>\<open>processFrame\<close> that got past its guards: its argument, the render it
  belongs to, its \<^verbatim>\<open>startTime\<close>, the \<^verbatim>\<open>await\<close> it is suspended at, and the effect run
  whose loop awaits it.
\<close>

datatype phase = Capturing | Fetching photo | Parsing photo "string + data" | Settled

record call =
  isManualScan :: bool
  c_render :: render
  c_startTime :: int
  phase :: phase
  awaited_by :: "nat option"

record system =
  ui :: session
  calls :: "call list"
  loops :: "loop_inst list"

text \<open>The code of \<^verbatim>\<open>loop\<close> after the \<^verbatim>\<open>await\<close>.\<close>

definition loop_resume :: "int \<Rightarrow> real \<Rightarrow> loop_inst \<Rightarrow> loop_inst" where
  "loop_resume now delay l =
     (let l1 = l\<lparr>lastFrameTime := now\<rparr>
      in if isActive l1 \<and> r_isAutoScan (l_render l1)
         then l1\<lparr>pc := TimerArmed (real_of_int now + delay)\<rparr>
         else l1\<lparr>pc := Finished\<rparr>)"

text \<open>
  The code of \<^verbatim>\<open>loop\<close> of effect run \<open>j\<close> up to the \<^verbatim>\<open>await\<close>. When
  \<^verbatim>\<open>processFrame\<close> returns at its guards the awaited promise is already resolved and
  the loop goes on at once.
\<close>

definition loop_enter :: "platform \<Rightarrow> nat \<Rightarrow> int \<Rightarrow> system \<Rightarrow> system" where
  "loop_enter pf j now sys =
     (let l = loops sys ! j in
      if \<not> isActive l \<or> \<not> r_isAutoScan (l_render l)
      then sys\<lparr>ui := (ui sys)\<lparr>scanning := False\<rparr>, loops := (loops sys)[j := l\<lparr>pc := Finished\<rparr>]\<rparr>
      else
        let delay = max 0 (targetInterval - real_of_int (now - lastFrameTime l)) in
        (case processFrame_begin pf (l_render l) False (ui sys) of
           None \<Rightarrow> sys\<lparr>loops := (loops sys)[j := loop_resume now delay l]\<rparr>
         | Some s1 \<Rightarrow>
             sys\<lparr>ui := s1,
                 calls := calls sys @ [\<lparr>isManualScan = False, c_render = l_render l,
                            c_startTime = now, phase = Capturing, awaited_by = Some j\<rparr>],
                 loops := (loops sys)[j := l\<lparr>pc := Awaiting (length (calls sys)) delay\<rparr>]\<rparr>))"

text \<open>The cleanup of the latest effect run.\<close>

definition cleanup :: "loop_inst list \<Rightarrow> loop_inst list" where
  "cleanup ls = (if ls = [] then [] else ls[length ls - 1 := (last ls)\<lparr>isActive := False\<rparr>])"

text \<open>The effect as it runs after the first render.\<close>

definition mounted :: system where
  "mounted =
     \<lparr>ui = (setLogs MANUAL_MODE initial)\<lparr>activeBox := None\<rparr>, calls = [],
      loops = [\<lparr>isActive = True, l_render = render_of initial, lastFrameTime = 0,
                pc = Finished\<rparr>]\<rparr>"

text \<open>
  The switch is flipped at time \<open>now\<close>: \<^verbatim>\<open>setIsAutoScan(p => !p)\<close>, the render, the
  cleanup of the previous effect run and the new run of the effect.
\<close>

definition toggle :: "platform \<Rightarrow> int \<Rightarrow> system \<Rightarrow> system" where
  "toggle pf now sys =
     (let s1 = (ui sys)\<lparr>isAutoScan := \<not> isAutoScan (ui sys)\<rparr>;
          ls = cleanup (loops sys)
      in if isAutoScan s1
         then
           let l = \<lparr>isActive = True, l_render = render_of s1, lastFrameTime = now,
                    pc = Finished\<rparr>;
               sys1 = loop_enter pf (length ls) now (sys\<lparr>ui := s1, loops := ls @ [l]\<rparr>)
           in sys1\<lparr>ui := setLogs AUTO_SCAN_ENABLED (ui sys1)\<rparr>
         else
           sys\<lparr>ui := (setLogs MANUAL_MODE s1)\<lparr>activeBox := None\<rparr>,
               loops := ls @ [\<lparr>isActive = True, l_render = render_of s1, lastFrameTime = 0,
                              pc = Finished\<rparr>]\<rparr>)"

text \<open>
  The main trigger is pressed: it is rendered only when \<^verbatim>\<open>isAutoScan\<close> is false and is
  disabled while \<^verbatim>\<open>scanning\<close>; it calls \<^verbatim>\<open>processFrame(true)\<close> of the latest render.
\<close>

definition press :: "platform \<Rightarrow> int \<Rightarrow> system \<Rightarrow> system" where
  "press pf now sys =
     (let s = ui sys in
      if isAutoScan s \<or> scanning s then sys
      else (case processFrame_begin pf (render_of s) True s of
              None \<Rightarrow> sys
            | Some s1 \<Rightarrow>
                sys\<lparr>ui := s1,
                    calls := calls sys @ [\<lparr>isManualScan = True, c_render = render_of s,
                               c_startTime = now, phase = Capturing, awaited_by = None\<rparr>]\<rparr>))"

text \<open>
  Call \<open>i\<close> ends at time \<open>now\<close> with the state update \<open>f\<close>; the loop that awaits it
  goes on.
\<close>

definition finish :: "nat \<Rightarrow> int \<Rightarrow> (session \<Rightarrow> session) \<Rightarrow> system \<Rightarrow> system" where
  "finish i now f sys =
     (let c = calls sys ! i;
          sys1 = sys\<lparr>ui := f (ui sys), calls := (calls sys)[i := c\<lparr>phase := Settled\<rparr>]\<rparr>
      in case awaited_by c of
           None \<Rightarrow> sys1
         | Some j \<Rightarrow>
             (case pc (loops sys ! j) of
                Awaiting k delay \<Rightarrow>
                  sys1\<lparr>loops := (loops sys)[j := loop_resume now delay (loops sys ! j)]\<rparr>
              | TimerArmed t \<Rightarrow> sys1
              | Finished \<Rightarrow> sys1))"

text \<open>Call \<open>i\<close> ends through \<^verbatim>\<open>catch\<close> and \<^verbatim>\<open>finally\<close>.\<close>

definition fail_call :: "nat \<Rightarrow> int \<Rightarrow> js_error \<Rightarrow> system \<Rightarrow> system" where
  "fail_call i now e sys =
     finish i now
       (\<lambda>s. processFrame_finally (processFrame_catch (isManualScan (calls sys ! i)) e s)) sys"

datatype event =
    Toggle int
  | Press int
  | Captured nat "string + photo" int
  | Fetched nat network int
  | Parsed nat int real
  | TimerFired nat int

text \<open>
  One turn of the event loop. Every event carries the reading of \<^verbatim>\<open>Date.now()\<close> during
  that turn; \<open>Parsed\<close> also carries the value of \<^verbatim>\<open>Math.random()\<close>. An event for a call
  that is not suspended at the matching \<^verbatim>\<open>await\<close>, or for a timer that is not armed or
  not yet due, does not happen.
\<close>

fun step :: "platform \<Rightarrow> event \<Rightarrow> system \<Rightarrow> system" where
  "step pf (Toggle now) sys = toggle pf now sys"
| "step pf (Press now) sys = press pf now sys"
| "step pf (Captured i r now) sys =
     (if i < length (calls sys) then
        (case phase (calls sys ! i) of
           Capturing \<Rightarrow>
             (case r of
                Inl m \<Rightarrow> fail_call i now (Error m) sys
              | Inr p \<Rightarrow> sys\<lparr>calls := (calls sys)[i := (calls sys ! i)\<lparr>phase := Fetching p\<rparr>]\<rparr>)
         | Fetching p \<Rightarrow> sys
         | Parsing p b \<Rightarrow> sys
         | Settled \<Rightarrow> sys)
      else sys)"
| "step pf (Fetched i n now) sys =
     (if i < length (calls sys) then
        (case phase (calls sys ! i) of
           Fetching p \<Rightarrow>
             (case fetch pf (build_request (c_render (calls sys ! i))) n of
                Inl e \<Rightarrow> fail_call i now e sys
              | Inr resp \<Rightarrow>
                  if \<not> ok resp then fail_call i now (Error (''Status: '' @ status resp)) sys
                  else sys\<lparr>ui := (ui sys)\<lparr>isConnected := True\<rparr>,
                           calls := (calls sys)[i := (calls sys ! i)\<lparr>phase := Parsing p (json resp)\<rparr>]\<rparr>)
         | Capturing \<Rightarrow> sys
         | Parsing p b \<Rightarrow> sys
         | Settled \<Rightarrow> sys)
      else sys)"
| "step pf (Parsed i now rnd) sys =
     (if i < length (calls sys) then
        (case phase (calls sys ! i) of
           Parsing p b \<Rightarrow>
             (case b of
                Inl m \<Rightarrow> fail_call i now (Error m) sys
              | Inr d \<Rightarrow>
                  finish i now
                    (\<lambda>s. processFrame_finally
                           (processFrame_data pf (c_render (calls sys ! i))
                              (isManualScan (calls sys ! i)) p d
                              (now - c_startTime (calls sys ! i)) rnd s)) sys)
         | Capturing \<Rightarrow> sys
         | Fetching p \<Rightarrow> sys
         | Settled \<Rightarrow> sys)
      else sys)"
| "step pf (TimerFired j now) sys =
     (if j < length (loops sys) then
        (case pc (loops sys ! j) of
           TimerArmed due \<Rightarrow> if due \<le> real_of_int now then loop_enter pf j now sys else sys
         | Awaiting k delay \<Rightarrow> sys
         | Finished \<Rightarrow> sys)
      else sys)"

fun run :: "platform \<Rightarrow> event list \<Rightarrow> system \<Rightarrow> system" where
  "run pf [] sys = sys"
| "run pf (ev # evs) sys = run pf evs (step pf ev sys)"

text \<open>
  The calls that the loop of effect run \<open>j\<close> awaits and that have not ended, by their
  positions in the list of calls.
\<close>

definition in_flight :: "nat \<Rightarrow> system \<Rightarrow> nat list" where
  "in_flight j sys =
     filter (\<lambda>k. awaited_by (calls sys ! k) = Some j \<and> phase (calls sys ! k) \<noteq> Settled)
       [0..<length (calls sys)]"

text \<open>
  Every call that has not ended and is awaited by a loop is the call that loop is
  suspended on.
\<close>

definition call_inv :: "system \<Rightarrow> bool" where
  "call_inv sys \<longleftrightarrow>
     (\<forall>k j. k < length (calls sys) \<and> awaited_by (calls sys ! k) = Some j
          \<and> phase (calls sys ! k) \<noteq> Settled
        \<longrightarrow> j < length (loops sys) \<and> (\<exists>d. pc (loops sys ! j) = Awaiting k d))"

section \<open>Concrete inputs\<close>

text \<open>A phone with a 1080 by 1920 window, and a 640 by 480 photo.\<close>

definition phone :: platform where
  "phone = \<lparr>SCREEN_WIDTH = 1080, SCREEN_HEIGHT = 1920, cameraRef = True,
     abortMessage = ''Aborted''\<rparr>"

definition vga :: photo where
  "vga = \<lparr>width = 640, height = 480\<rparr>"

text \<open>
  A body that reports a skipped frame, a response that carries a body, the renders of the
  mounted screen in manual mode and of a screen in auto mode with a given frame counter,
  and a call whose request the transport rejects.
\<close>

definition skip :: data where
  "skip = \<lparr>skipped = True, metrics_fps = None, best_match = None\<rparr>"

definition respond :: "data \<Rightarrow> response" where
  "respond d = \<lparr>ok = True, status = ''200'', json = Inr d\<rparr>"

definition auto_render :: "nat \<Rightarrow> render" where
  "auto_render n = \<lparr>r_scanning = False, r_isAutoScan = True, r_frameCounter = n\<rparr>"

definition manual_render :: render where
  "manual_render = \<lparr>r_scanning = False, r_isAutoScan = False, r_frameCounter = 0\<rparr>"

definition unreachable :: world where
  "unreachable = \<lparr>capture = Inr vga, net = Settles 30 (Rejects ''Network request failed''),
     startTime = 0, endTime = 40, random = 0\<rparr>"

text \<open>
  A match with a bounding box, a body that carries it, and five sequences of events: a
  manual scan whose body has arrived and is not yet read; a manual scan that finds the
  match; an auto scan whose body arrives after the switch back
  to manual; an auto cycle whose call lasts 1000 ms; and an auto cycle that has ended,
  followed by the switch back to manual while its timer is armed.
\<close>

definition tiger :: match where
  "tiger = \<lparr>label = ''tiger'', confidence = Some 0.9, bbox = Some [100, 100, 200, 200],
     details = []\<rparr>"

definition detection :: data where
  "detection = \<lparr>skipped = False, metrics_fps = None, best_match = Some tiger\<rparr>"

definition manual_parsing :: "event list" where
  "manual_parsing = [Press 0, Captured 0 (Inr vga) 10,
     Fetched 0 (Settles 100 (Resolves (respond detection))) 110]"

definition manual_found :: "event list" where
  "manual_found = [Press 0, Captured 0 (Inr vga) 10,
     Fetched 0 (Settles 100 (Resolves (respond detection))) 110, Parsed 0 120 0.5]"

definition auto_pending :: "event list" where
  "auto_pending = [Toggle 0, Captured 0 (Inr vga) 10, Toggle 20,
     Fetched 0 (Settles 10 (Resolves (respond detection))) 30]"

definition slow_cycle :: "event list" where
  "slow_cycle = [Toggle 0, Captured 0 (Inr vga) 100,
     Fetched 0 (Settles 800 (Resolves (respond detection))) 900, Parsed 0 1000 0.5]"

definition timer_pending :: "event list" where
  "timer_pending = [Toggle 0, Captured 0 (Inr vga) 10,
     Fetched 0 (Settles 10 (Resolves (respond detection))) 30, Parsed 0 40 0.5, Toggle 50]"

section \<open>Properties of the log\<close>

lemma logs_setLogs: "length (logs (setLogs t s)) \<le> 6"
  by (simp add: setLogs_def addLog_def)

lemma logs_begin: "processFrame_begin pf r m s = Some s1 \<Longrightarrow> logs s1 = logs s"
  by (auto simp: processFrame_begin_def Let_def emit_def split: if_splits)

lemma logs_catch: "length (logs (processFrame_catch m e s)) \<le> 6"
  by (simp add: processFrame_catch_def Let_def emit_def setLogs_def addLog_def)

lemma logs_finally: "logs (processFrame_finally s) = logs s"
  by (simp add: processFrame_finally_def)

lemma logs_data:
  "length (logs s) \<le> 6 \<Longrightarrow> length (logs (processFrame_data pf r m p d t rnd s)) \<le> 6"
  by (simp add: processFrame_data_def Let_def emit_def setLogs_def addLog_def
      split: option.splits)

lemma ui_finish: "ui (finish i now f sys) = f (ui sys)"
  by (simp add: finish_def Let_def split: option.splits loop_pc.splits)

lemma logs_loop_enter:
  "length (logs (ui sys)) \<le> 6 \<Longrightarrow> length (logs (ui (loop_enter pf j now sys))) \<le> 6"
  by (auto simp: loop_enter_def Let_def dest: logs_begin split: option.splits)

lemma logs_toggle: "length (logs (ui (toggle pf now sys))) \<le> 6"
  by (simp add: toggle_def Let_def setLogs_def addLog_def)

lemma logs_press:
  "length (logs (ui sys)) \<le> 6 \<Longrightarrow> length (logs (ui (press pf now sys))) \<le> 6"
  by (auto simp: press_def Let_def dest: logs_begin split: option.splits)

lemma logs_fail_call: "length (logs (ui (fail_call i now e sys))) \<le> 6"
  by (simp add: fail_call_def ui_finish logs_finally logs_catch)

lemma logs_step:
  assumes "length (logs (ui sys)) \<le> 6"
  shows "length (logs (ui (step pf ev sys))) \<le> 6"
proof (cases ev)
  case (Toggle now)
  then show ?thesis by (simp add: logs_toggle)
next
  case (Press now)
  with assms show ?thesis by (simp add: logs_press)
next
  case (Captured i r now)
  with assms show ?thesis
    by (simp add: logs_fail_call split: phase.splits sum.splits)
next
  case (Fetched i n now)
  with assms show ?thesis
    by (simp add: logs_fail_call split: phase.splits sum.splits)
next
  case (Parsed i now rnd)
  with assms show ?thesis
    by (simp add: logs_fail_call ui_finish logs_finally logs_data
        split: phase.splits sum.splits)
next
  case (TimerFired j now)
  with assms show ?thesis
    by (simp add: logs_loop_enter split: loop_pc.splits)
qed

lemma logs_run:
  "length (logs (ui sys)) \<le> 6 \<Longrightarrow> length (logs (ui (run pf evs sys))) \<le> 6"
  by (induction evs arbitrary: sys) (simp_all add: logs_step)

lemma logs_mounted: "length (logs (ui mounted)) \<le> 6"
  by (simp add: mounted_def initial_def setLogs_def addLog_def)

text \<open>
  Claim C6. The log is kept most recent first and never holds more than 6 entries:
  \<^verbatim>\<open>addLog\<close> puts the new entry in front; while there is room nothing is lost; on a
  full log the last (oldest) entry is dropped; of seven entries added to an empty log the
  first is gone; and after any sequence of events from the mounted screen the log has at
  most 6 entries.
\<close>

theorem log_capacity:
  "length (addLog text prev) \<le> 6
   \<and> (length prev < 6 \<longrightarrow> addLog text prev = text # prev)
   \<and> (length prev = 6 \<longrightarrow> addLog text prev = text # butlast prev)
   \<and> addLog e7 (addLog e6 (addLog e5 (addLog e4 (addLog e3 (addLog e2 (addLog e1 []))))))
       = [e7, e6, e5, e4, e3, e2]
   \<and> length (logs (ui (run pf evs mounted))) \<le> 6"
proof -
  have "length prev = 6 \<Longrightarrow> take 5 prev = butlast prev"
    by (simp add: butlast_conv_take)
  then show ?thesis
    by (simp add: addLog_def logs_run logs_mounted)
qed

theorem log_capacity_witness:
  "length [FPS 1, FPS 2, FPS 3, FPS 4, FPS 5, FPS 6] = 6
   \<and> addLog (ERROR ''x'') [FPS 1, FPS 2, FPS 3, FPS 4, FPS 5, FPS 6]
       = [ERROR ''x'', FPS 1, FPS 2, FPS 3, FPS 4, FPS 5]
   \<and> length [MANUAL_MODE] < 6
   \<and> addLog AUTO_SCAN_ENABLED [MANUAL_MODE] = [AUTO_SCAN_ENABLED, MANUAL_MODE]"
proof -
  have full: "length [FPS 1, FPS 2, FPS 3, FPS 4, FPS 5, FPS 6] = 6" by simp
  have room: "length [MANUAL_MODE] < 6" by simp
  from full room
    log_capacity [of "ERROR ''x''" "[FPS 1, FPS 2, FPS 3, FPS 4, FPS 5, FPS 6]"
      MANUAL_MODE MANUAL_MODE MANUAL_MODE MANUAL_MODE MANUAL_MODE MANUAL_MODE MANUAL_MODE
      phone "[]"]
    log_capacity [of AUTO_SCAN_ENABLED "[MANUAL_MODE]"
      MANUAL_MODE MANUAL_MODE MANUAL_MODE MANUAL_MODE MANUAL_MODE MANUAL_MODE MANUAL_MODE
      phone "[]"]
  show ?thesis by simp
qed

section \<open>Properties of the cover transform\<close>

text \<open>
  Claim C1. For a photo of positive width and height the screen computes
  \<open>scale = max (SCREEN_WIDTH / width) (SCREEN_HEIGHT / height)\<close>,
  \<open>offsetX = (SCREEN_WIDTH - width * scale) / 2\<close> and
  \<open>offsetY = (SCREEN_HEIGHT - height * scale) / 2\<close>, and a match with the box
  \<open>[x1, y1, x2, y2]\<close> sets the active box to
  \<open>[x1 * scale + offsetX, y1 * scale + offsetY, x2 * scale + offsetX, y2 * scale + offsetY]\<close>.
  For a 640 by 480 photo on a 1080 by 1920 window: scale 4, offsets -740 and 0, and the
  box \<open>[100, 100, 200, 200]\<close> becomes \<open>[-340, 400, 60, 800]\<close>.
\<close>

theorem cover_transform:
  assumes "0 < width p" and "0 < height p"
    and "sc = max (SCREEN_WIDTH pf / width p) (SCREEN_HEIGHT pf / height p)"
    and "ox = (SCREEN_WIDTH pf - width p * sc) / 2"
    and "oy = (SCREEN_HEIGHT pf - height p * sc) / 2"
  shows "scale pf p = Num sc \<and> offsetX pf p = Num ox \<and> offsetY pf p = Num oy
    \<and> scaledBox pf p [x1, y1, x2, y2]
        = [Num (x1 * sc + ox), Num (y1 * sc + oy), Num (x2 * sc + ox), Num (y2 * sc + oy)]
    \<and> activeBox (processFrame_data pf r m p
          \<lparr>skipped = False, metrics_fps = f,
           best_match = Some \<lparr>label = l, confidence = c, bbox = Some [x1, y1, x2, y2],
                              details = dt\<rparr>\<rparr> t rnd s)
        = Some \<lparr>box = [Num (x1 * sc + ox), Num (y1 * sc + oy), Num (x2 * sc + ox),
                        Num (y2 * sc + oy)], box_label = l\<rparr>
    \<and> scale \<lparr>SCREEN_WIDTH = 1080, SCREEN_HEIGHT = 1920, cameraRef = cam, abortMessage = am\<rparr>
             \<lparr>width = 640, height = 480\<rparr> = Num 4
    \<and> offsetX \<lparr>SCREEN_WIDTH = 1080, SCREEN_HEIGHT = 1920, cameraRef = cam, abortMessage = am\<rparr>
             \<lparr>width = 640, height = 480\<rparr> = Num (- 740)
    \<and> offsetY \<lparr>SCREEN_WIDTH = 1080, SCREEN_HEIGHT = 1920, cameraRef = cam, abortMessage = am\<rparr>
             \<lparr>width = 640, height = 480\<rparr> = Num 0
    \<and> scaledBox \<lparr>SCREEN_WIDTH = 1080, SCREEN_HEIGHT = 1920, cameraRef = cam, abortMessage = am\<rparr>
             \<lparr>width = 640, height = 480\<rparr> [100, 100, 200, 200]
        = [Num (- 340), Num 400, Num 60, Num 800]"
proof -
  from assms have nz: "width p \<noteq> 0" "height p \<noteq> 0" by simp_all
  have sc: "scale pf p = Num sc"
    using nz assms(3) by (simp add: scale_def)
  have ox: "offsetX pf p = Num ox"
    using assms(4) by (simp add: offsetX_def scaledWidth_def sc js_sub_def)
  have oy: "offsetY pf p = Num oy"
    using assms(5) by (simp add: offsetY_def scaledHeight_def sc js_sub_def)
  have sb: "scaledBox pf p [x1, y1, x2, y2]
        = [Num (x1 * sc + ox), Num (y1 * sc + oy), Num (x2 * sc + ox), Num (y2 * sc + oy)]"
    by (simp add: scaledBox_def element_def sc ox oy)
  have bx: "activeBox (processFrame_data pf r m p
          \<lparr>skipped = False, metrics_fps = f,
           best_match = Some \<lparr>label = l, confidence = c, bbox = Some [x1, y1, x2, y2],
                              details = dt\<rparr>\<rparr> t rnd s)
        = Some \<lparr>box = scaledBox pf p [x1, y1, x2, y2], box_label = l\<rparr>"
    by (simp add: processFrame_data_def Let_def emit_def setLogs_def split: option.splits)
  have c1: "scale \<lparr>SCREEN_WIDTH = 1080, SCREEN_HEIGHT = 1920, cameraRef = cam, abortMessage = am\<rparr>
             \<lparr>width = 640, height = 480\<rparr> = Num 4"
    by (simp add: scale_def)
  have c2: "offsetX \<lparr>SCREEN_WIDTH = 1080, SCREEN_HEIGHT = 1920, cameraRef = cam, abortMessage = am\<rparr>
             \<lparr>width = 640, height = 480\<rparr> = Num (- 740)"
    by (simp add: offsetX_def scaledWidth_def c1 js_sub_def)
  have c3: "offsetY \<lparr>SCREEN_WIDTH = 1080, SCREEN_HEIGHT = 1920, cameraRef = cam, abortMessage = am\<rparr>
             \<lparr>width = 640, height = 480\<rparr> = Num 0"
    by (simp add: offsetY_def scaledHeight_def c1 js_sub_def)
  have c4: "scaledBox \<lparr>SCREEN_WIDTH = 1080, SCREEN_HEIGHT = 1920, cameraRef = cam, abortMessage = am\<rparr>
             \<lparr>width = 640, height = 480\<rparr> [100, 100, 200, 200]
        = [Num (- 340), Num 400, Num 60, Num 800]"
    by (simp add: scaledBox_def element_def c1 c2 c3)
  from sc ox oy sb bx c1 c2 c3 c4 show ?thesis by simp
qed

theorem cover_transform_witness:
  "(0::real) < width vga \<and> (0::real) < height vga
   \<and> (4::real) = max (SCREEN_WIDTH phone / width vga) (SCREEN_HEIGHT phone / height vga)
   \<and> (- 740::real) = (SCREEN_WIDTH phone - width vga * 4) / 2
   \<and> (0::real) = (SCREEN_HEIGHT phone - height vga * 4) / 2
   \<and> activeBox (processFrame_data phone (render_of initial) True vga
          \<lparr>skipped = False, metrics_fps = None,
           best_match = Some \<lparr>label = ''tiger'', confidence = Some 0.9,
                              bbox = Some [100, 100, 200, 200], details = []\<rparr>\<rparr> 120 0.5 initial)
        = Some \<lparr>box = [Num (- 340), Num 400, Num 60, Num 800], box_label = ''tiger''\<rparr>"
proof -
  have h1: "(0::real) < width vga" and h2: "(0::real) < height vga"
    by (simp_all add: vga_def)
  have h3: "(4::real) = max (SCREEN_WIDTH phone / width vga) (SCREEN_HEIGHT phone / height vga)"
    by (simp add: vga_def phone_def)
  have h4: "(- 740::real) = (SCREEN_WIDTH phone - width vga * 4) / 2"
    by (simp add: vga_def phone_def)
  have h5: "(0::real) = (SCREEN_HEIGHT phone - height vga * 4) / 2"
    by (simp add: vga_def phone_def)
  from cover_transform [OF h1 h2 h3 h4 h5, of 100 100 200 200 "render_of initial" True None
      "''tiger''" "Some 0.9" "[]" 120 "0.5" initial]
  have "activeBox (processFrame_data phone (render_of initial) True vga
          \<lparr>skipped = False, metrics_fps = None,
           best_match = Some \<lparr>label = ''tiger'', confidence = Some 0.9,
                              bbox = Some [100, 100, 200, 200], details = []\<rparr>\<rparr> 120 0.5 initial)
        = Some \<lparr>box = [Num (- 340), Num 400, Num 60, Num 800], box_label = ''tiger''\<rparr>"
    by simp
  with h1 h2 h3 h4 h5 show ?thesis by simp
qed

section \<open>Properties of one call\<close>

lemma begin_auto:
  "processFrame_begin pf r False s = Some s1 \<Longrightarrow> s1 = s\<lparr>scanning := True\<rparr>"
  by (auto simp: processFrame_begin_def Let_def split: if_splits)

lemma begin_manual:
  "processFrame_begin pf r True s = Some s1 \<Longrightarrow>
     s1 = emit ImpactLight (s\<lparr>scanning := True, result := None\<rparr>)"
  by (auto simp: processFrame_begin_def Let_def split: if_splits)

lemma data_skipped:
  "skipped d \<Longrightarrow> processFrame_finally (processFrame_data pf r m p d t rnd s)
     = s\<lparr>scanning := False, frameCounter := frameCounter s + 1\<rparr>"
  by (simp add: processFrame_data_def processFrame_finally_def)

lemma processFrame_Skipped:
  assumes "processFrame pf r m w s = (Skipped, s')"
  shows "\<exists>s1 p resp d. processFrame_begin pf r m s = Some s1 \<and> capture w = Inr p
     \<and> fetch pf (build_request r) (net w) = Inr resp \<and> ok resp \<and> json resp = Inr d \<and> skipped d
     \<and> s' = processFrame_finally (processFrame_data pf r m p d (endTime w - startTime w)
               (random w) (s1\<lparr>isConnected := True\<rparr>))"
  using assms
  by (auto simp: processFrame_def failed_def Let_def split: option.splits sum.splits if_splits)

text \<open>
  Claim C5. When a call made by the loop (\<^verbatim>\<open>processFrame(false)\<close>) ends on a body with
  \<^verbatim>\<open>skipped\<close>, the frame counter has grown by exactly one (from 7 to 8), the result,
  the active box and the log are as before the call (so no error line was added), and
  nothing was emitted.
\<close>

theorem skipped_outcome:
  assumes "processFrame pf r False w s = (Skipped, s')"
  shows "frameCounter s' = frameCounter s + 1 \<and> result s' = result s
    \<and> activeBox s' = activeBox s \<and> logs s' = logs s \<and> emitted s' = emitted s
    \<and> (frameCounter s = 7 \<longrightarrow> frameCounter s' = 8)"
proof -
  from processFrame_Skipped [OF assms] obtain s1 p resp d where
    b: "processFrame_begin pf r False s = Some s1" and sk: "skipped d" and
    s': "s' = processFrame_finally (processFrame_data pf r False p d (endTime w - startTime w)
               (random w) (s1\<lparr>isConnected := True\<rparr>))"
    by blast
  from begin_auto [OF b] have s1: "s1 = s\<lparr>scanning := True\<rparr>" .
  from s' sk have "s' = (s1\<lparr>isConnected := True\<rparr>)\<lparr>scanning := False,
      frameCounter := frameCounter (s1\<lparr>isConnected := True\<rparr>) + 1\<rparr>"
    by (simp add: data_skipped)
  with s1 show ?thesis by simp
qed

lemma processFrame_Caught:
  assumes "processFrame pf r m w s = (Caught e, s')"
  shows "\<exists>s1. processFrame_begin pf r m s = Some s1
     \<and> (s' = processFrame_finally (processFrame_catch m e s1)
        \<or> s' = processFrame_finally (processFrame_catch m e (s1\<lparr>isConnected := True\<rparr>)))"
  using assms
  by (auto simp: processFrame_def failed_def Let_def split: option.splits sum.splits if_splits)

lemma catch_fields:
  "isConnected (processFrame_finally (processFrame_catch m e s)) = False"
  "logs (processFrame_finally (processFrame_catch m e s)) = addLog (ERROR (take 20 (message e))) (logs s)"
  "emitted (processFrame_finally (processFrame_catch m e s)) = (if m then emitted s @ [Alert] else emitted s)"
  "scanning (processFrame_finally (processFrame_catch m e s)) = False"
  "frameCounter (processFrame_finally (processFrame_catch m e s)) = frameCounter s"
  by (simp_all add: processFrame_finally_def processFrame_catch_def Let_def setLogs_def emit_def)

theorem skipped_outcome_witness:
  "processFrame phone (auto_render 7) False
       \<lparr>capture = Inr vga, net = Settles 40 (Resolves (respond skip)), startTime = 0,
        endTime = 50, random = 0\<rparr> (initial\<lparr>frameCounter := 7\<rparr>)
     = (Skipped, initial\<lparr>frameCounter := 8\<rparr>)
   \<and> frameCounter (initial\<lparr>frameCounter := 7\<rparr>) = 7
   \<and> frameCounter (initial\<lparr>frameCounter := 8\<rparr>) = 8"
proof -
  have run: "processFrame phone (auto_render 7) False
       \<lparr>capture = Inr vga, net = Settles 40 (Resolves (respond skip)), startTime = 0,
        endTime = 50, random = 0\<rparr> (initial\<lparr>frameCounter := 7\<rparr>)
     = (Skipped, initial\<lparr>frameCounter := 8\<rparr>)"
    by (simp add: processFrame_def processFrame_begin_def phone_def auto_render_def fetch_def
        build_request_def respond_def skip_def processFrame_data_def processFrame_finally_def
        initial_def Let_def)
  from skipped_outcome [OF run] run show ?thesis by simp
qed

text \<open>
  Claim C4. When a call ends in the \<^verbatim>\<open>catch\<close> block, \<^verbatim>\<open>isConnected\<close> is false and the
  line \<^verbatim>\<open>ERROR: \<close> followed by the first 20 characters of the error's message has been
  put in front of the log; a manual call has raised the alert, a call of the loop has
  emitted nothing; and the loop that awaited the failed call arms its timer for the next
  cycle.
\<close>

theorem failure_outcome:
  assumes "processFrame pf r manual w s = (Caught e, s')"
  shows "isConnected s' = False
    \<and> logs s' = addLog (ERROR (take 20 (message e))) (logs s)
    \<and> frameCounter s' = frameCounter s
    \<and> (manual \<longrightarrow> emitted s' = emitted s @ [ImpactLight, Alert])
    \<and> (\<not> manual \<longrightarrow> emitted s' = emitted s)
    \<and> (j < length (loops sys) \<and> awaited_by (calls sys ! i) = Some j
        \<and> pc (loops sys ! j) = Awaiting i d \<and> isActive (loops sys ! j)
        \<and> r_isAutoScan (l_render (loops sys ! j))
        \<longrightarrow> pc (loops (fail_call i now e sys) ! j) = TimerArmed (real_of_int now + d))"
proof -
  from processFrame_Caught [OF assms] obtain s1 where
    b: "processFrame_begin pf r manual s = Some s1" and
    s': "s' = processFrame_finally (processFrame_catch manual e s1)
        \<or> s' = processFrame_finally (processFrame_catch manual e (s1\<lparr>isConnected := True\<rparr>))"
    by blast
  have s1: "logs s1 = logs s" "frameCounter s1 = frameCounter s"
    "emitted s1 = (if manual then emitted s @ [ImpactLight] else emitted s)"
    using b by (cases manual; auto dest: begin_auto begin_manual simp: emit_def)+
  have ui: "isConnected s' = False
    \<and> logs s' = addLog (ERROR (take 20 (message e))) (logs s)
    \<and> frameCounter s' = frameCounter s
    \<and> (manual \<longrightarrow> emitted s' = emitted s @ [ImpactLight, Alert])
    \<and> (\<not> manual \<longrightarrow> emitted s' = emitted s)"
    using s' s1 by (auto simp: catch_fields)
  have lp: "j < length (loops sys) \<and> awaited_by (calls sys ! i) = Some j
        \<and> pc (loops sys ! j) = Awaiting i d \<and> isActive (loops sys ! j)
        \<and> r_isAutoScan (l_render (loops sys ! j))
        \<longrightarrow> pc (loops (fail_call i now e sys) ! j) = TimerArmed (real_of_int now + d)"
    by (simp add: fail_call_def finish_def loop_resume_def Let_def)
  from ui lp show ?thesis by simp
qed

lemma toggled_on:
  "toggle phone 0 mounted =
     \<lparr>ui = \<lparr>scanning = True, result = None, isAutoScan = True, isConnected = True,
             logs = [AUTO_SCAN_ENABLED, MANUAL_MODE, SYSTEM_INITIALIZED, SENSORS_ONLINE],
             frameCounter = 0, fps = 0, activeBox = None, emitted = []\<rparr>,
      calls = [\<lparr>isManualScan = False, c_render = auto_render 0, c_startTime = 0,
                phase = Capturing, awaited_by = Some 1\<rparr>],
      loops = [\<lparr>isActive = False, l_render = manual_render, lastFrameTime = 0, pc = Finished\<rparr>,
               \<lparr>isActive = True, l_render = auto_render 0, lastFrameTime = 0,
                pc = Awaiting 0 (200 / 3)\<rparr>]\<rparr>"
  by (simp add: toggle_def mounted_def initial_def setLogs_def addLog_def cleanup_def
      render_of_def loop_enter_def processFrame_begin_def phone_def targetInterval_def
      auto_render_def manual_render_def Let_def)

theorem failure_outcome_witness:
  "processFrame phone (auto_render 0) False unreachable initial
     = (Caught (Error ''Network request failed''),
        initial\<lparr>isConnected := False,
                logs := [ERROR ''Network request fail'', SYSTEM_INITIALIZED, SENSORS_ONLINE]\<rparr>)
   \<and> processFrame phone manual_render True unreachable initial
     = (Caught (Error ''Network request failed''),
        initial\<lparr>isConnected := False,
                logs := [ERROR ''Network request fail'', SYSTEM_INITIALIZED, SENSORS_ONLINE],
                emitted := [ImpactLight, Alert]\<rparr>)
   \<and> pc (loops (fail_call 0 40 (Error ''Network request failed'')
                   (step phone (Toggle 0) mounted)) ! 1) = TimerArmed (40 + 200 / 3)"
proof -
  have a: "processFrame phone (auto_render 0) False unreachable initial
     = (Caught (Error ''Network request failed''),
        initial\<lparr>isConnected := False,
                logs := [ERROR ''Network request fail'', SYSTEM_INITIALIZED, SENSORS_ONLINE]\<rparr>)"
    by (simp add: processFrame_def processFrame_begin_def phone_def auto_render_def fetch_def
        build_request_def unreachable_def failed_def processFrame_catch_def
        processFrame_finally_def setLogs_def addLog_def initial_def Let_def)
  have m: "processFrame phone manual_render True unreachable initial
     = (Caught (Error ''Network request failed''),
        initial\<lparr>isConnected := False,
                logs := [ERROR ''Network request fail'', SYSTEM_INITIALIZED, SENSORS_ONLINE],
                emitted := [ImpactLight, Alert]\<rparr>)"
    by (simp add: processFrame_def processFrame_begin_def phone_def manual_render_def fetch_def
        build_request_def unreachable_def failed_def processFrame_catch_def
        processFrame_finally_def setLogs_def addLog_def initial_def emit_def Let_def)
  have l: "1 < length (loops (step phone (Toggle 0) mounted))
     \<and> awaited_by (calls (step phone (Toggle 0) mounted) ! 0) = Some 1
     \<and> pc (loops (step phone (Toggle 0) mounted) ! 1) = Awaiting 0 (200 / 3)
     \<and> isActive (loops (step phone (Toggle 0) mounted) ! 1)
     \<and> r_isAutoScan (l_render (loops (step phone (Toggle 0) mounted) ! 1))"
    by (simp add: toggled_on auto_render_def)
  from failure_outcome [OF a, of 1 "step phone (Toggle 0) mounted" 0 "200 / 3" 40] l
  have "pc (loops (fail_call 0 40 (Error ''Network request failed'')
                   (step phone (Toggle 0) mounted)) ! 1) = TimerArmed (40 + 200 / 3)"
    by simp
  with a m failure_outcome [OF m] show ?thesis by simp
qed

lemma fetch_aborts:
  assumes "case n of Hangs \<Rightarrow> True | Settles t rp \<Rightarrow> timeoutMs req < t"
  shows "fetch pf req n = Inl (AbortError (abortMessage pf))
    \<and> fetch_duration req n = timeoutMs req"
  using assms by (auto simp: fetch_def fetch_duration_def split: network.splits)

lemma fetch_duration_bound: "fetch_duration req n \<le> timeoutMs req"
  by (simp add: fetch_duration_def split: network.splits)

text \<open>
  Claim C3. The abort timer is set to 15000 ms for a request to the predict endpoint and
  to 5000 ms for a request to the stream endpoint, and no \<^verbatim>\<open>fetch\<close> lasts longer than
  its timer. When the transport has not settled within that time the request is aborted,
  the call ends in the \<^verbatim>\<open>catch\<close> block with the abort error, \<^verbatim>\<open>scanning\<close> and
  \<^verbatim>\<open>isConnected\<close> are false afterwards, and a manual call has raised the alert.
\<close>

theorem submission_timeout:
  assumes "cameraRef pf" and "\<not> (r_scanning r \<and> \<not> r_isAutoScan r)"
    and "capture w = Inr p"
    and "case net w of Hangs \<Rightarrow> True | Settles t rp \<Rightarrow> timeoutMs (build_request r) < t"
  shows "timeoutMs (build_request r) = (if r_isAutoScan r then 5000 else 15000)
    \<and> (endpoint (build_request r) = PREDICT_ENDPOINT \<longrightarrow> timeoutMs (build_request r) = 15000)
    \<and> (endpoint (build_request r) = STREAM_ENDPOINT \<longrightarrow> timeoutMs (build_request r) = 5000)
    \<and> fetch_duration (build_request r) n \<le> timeoutMs (build_request r)
    \<and> fetch_duration (build_request r) (net w) = timeoutMs (build_request r)
    \<and> fetch pf (build_request r) (net w) = Inl (AbortError (abortMessage pf))
    \<and> fst (processFrame pf r manual w s) = Caught (AbortError (abortMessage pf))
    \<and> scanning (snd (processFrame pf r manual w s)) = False
    \<and> isConnected (snd (processFrame pf r manual w s)) = False
    \<and> (manual \<longrightarrow> emitted (snd (processFrame pf r manual w s)) = emitted s @ [ImpactLight, Alert])"
proof -
  have t: "timeoutMs (build_request r) = (if r_isAutoScan r then 5000 else 15000)"
    "endpoint (build_request r) = PREDICT_ENDPOINT \<longrightarrow> timeoutMs (build_request r) = 15000"
    "endpoint (build_request r) = STREAM_ENDPOINT \<longrightarrow> timeoutMs (build_request r) = 5000"
    by (simp_all add: build_request_def)
  have f: "fetch pf (build_request r) (net w) = Inl (AbortError (abortMessage pf))"
    "fetch_duration (build_request r) (net w) = timeoutMs (build_request r)"
    using fetch_aborts [OF assms(4), of pf] by simp_all
  obtain s1 where b: "processFrame_begin pf r manual s = Some s1"
    using assms(1,2) by (simp add: processFrame_begin_def)
  have pf: "processFrame pf r manual w s
      = (Caught (AbortError (abortMessage pf)),
         processFrame_finally (processFrame_catch manual (AbortError (abortMessage pf)) s1))"
    using b assms(3) f(1) by (simp add: processFrame_def failed_def)
  have e: "manual \<longrightarrow> emitted (snd (processFrame pf r manual w s)) = emitted s @ [ImpactLight, Alert]"
  proof
    assume m: manual
    with b have "s1 = emit ImpactLight (s\<lparr>scanning := True, result := None\<rparr>)"
      by (simp add: begin_manual)
    then have "emitted s1 = emitted s @ [ImpactLight]" by (simp add: emit_def)
    with m show "emitted (snd (processFrame pf r manual w s)) = emitted s @ [ImpactLight, Alert]"
      unfolding pf by (simp add: catch_fields)
  qed
  have u: "fst (processFrame pf r manual w s) = Caught (AbortError (abortMessage pf))"
    "scanning (snd (processFrame pf r manual w s)) = False"
    "isConnected (snd (processFrame pf r manual w s)) = False"
    by (simp_all add: pf catch_fields)
  from t f fetch_duration_bound [of "build_request r" n] u e show ?thesis
    by blast
qed

theorem submission_timeout_witness:
  "cameraRef phone \<and> \<not> (r_scanning manual_render \<and> \<not> r_isAutoScan manual_render)
   \<and> timeoutMs (build_request manual_render) = 15000
   \<and> endpoint (build_request manual_render) = PREDICT_ENDPOINT
   \<and> (15000::nat) < 15001
   \<and> processFrame phone manual_render True
        \<lparr>capture = Inr vga, net = Settles 15001 (Resolves (respond skip)), startTime = 0,
         endTime = 15010, random = 0\<rparr> initial
      = (Caught (AbortError ''Aborted''),
         initial\<lparr>isConnected := False,
                 logs := [ERROR ''Aborted'', SYSTEM_INITIALIZED, SENSORS_ONLINE],
                 emitted := [ImpactLight, Alert]\<rparr>)"
proof -
  let ?w = "\<lparr>capture = Inr vga, net = Settles 15001 (Resolves (respond skip)), startTime = 0,
         endTime = 15010, random = 0\<rparr>"
  have h1: "cameraRef phone" by (simp add: phone_def)
  have h2: "\<not> (r_scanning manual_render \<and> \<not> r_isAutoScan manual_render)"
    by (simp add: manual_render_def)
  have h3: "capture ?w = Inr vga" by simp
  have h4: "case net ?w of Hangs \<Rightarrow> True
            | Settles t rp \<Rightarrow> timeoutMs (build_request manual_render) < t"
    by (simp add: build_request_def manual_render_def)
  have v: "processFrame phone manual_render True ?w initial
      = (Caught (AbortError ''Aborted''),
         initial\<lparr>isConnected := False,
                 logs := [ERROR ''Aborted'', SYSTEM_INITIALIZED, SENSORS_ONLINE],
                 emitted := [ImpactLight, Alert]\<rparr>)"
    by (simp add: processFrame_def processFrame_begin_def phone_def manual_render_def fetch_def
        build_request_def failed_def processFrame_catch_def
        processFrame_finally_def setLogs_def addLog_def initial_def emit_def Let_def)
  from submission_timeout [OF h1 h2 h3 h4, of Hangs True initial] h1 h2 v show ?thesis
    by (simp add: build_request_def manual_render_def)
qed

text \<open>The definitions that a run on concrete inputs unfolds.\<close>

lemmas model_defs = toggle_def press_def mounted_def initial_def setLogs_def addLog_def cleanup_def
      render_of_def loop_enter_def loop_resume_def processFrame_begin_def phone_def targetInterval_def
      finish_def fail_call_def fetch_def build_request_def respond_def detection_def tiger_def
      processFrame_data_def processFrame_finally_def processFrame_catch_def emit_def
      scaledBox_def element_def scale_def offsetX_def offsetY_def scaledWidth_def scaledHeight_def
      js_sub_def vga_def Let_def

section \<open>A photo without extent\<close>

lemma js_add_nonfinite: "\<not> finite_num b \<Longrightarrow> \<not> finite_num (js_add a b)"
  by (cases a; cases b) auto

lemma scale_zero:
  assumes "width p = 0 \<or> height p = 0" "0 \<le> width p" "0 \<le> height p"
    "0 < SCREEN_WIDTH pf" "0 < SCREEN_HEIGHT pf"
  shows "scale pf p = PInf"
  using assms by (auto simp: scale_def)

lemma offsets_zero:
  assumes "scale pf p = PInf" "0 \<le> width p" "0 \<le> height p"
  shows "\<not> finite_num (offsetX pf p) \<and> \<not> finite_num (offsetY pf p)"
  using assms
  by (auto simp: offsetX_def offsetY_def scaledWidth_def scaledHeight_def js_sub_def)

lemma processFrame_Completed:
  assumes "cameraRef pf" and "\<not> (r_scanning r \<and> \<not> r_isAutoScan r)"
    and "capture w = Inr p" and "fetch pf (build_request r) (net w) = Inr resp"
    and "ok resp" and "json resp = Inr d" and "\<not> skipped d"
  shows "\<exists>s1. processFrame_begin pf r manual s = Some s1 \<and> processFrame pf r manual w s
     = (Completed, processFrame_finally (processFrame_data pf r manual p d
          (endTime w - startTime w) (random w) (s1\<lparr>isConnected := True\<rparr>)))"
  using assms by (simp add: processFrame_def processFrame_begin_def Let_def)

lemma data_box_result:
  assumes "\<not> skipped d"
  shows "best_match d = None \<longrightarrow>
       result (processFrame_data pf r manual p d t rnd s) = Some noMatch
       \<and> activeBox (processFrame_data pf r manual p d t rnd s) = None"
    and "best_match d = Some m \<and> bbox m = None \<longrightarrow>
       result (processFrame_data pf r manual p d t rnd s) = Some m
       \<and> activeBox (processFrame_data pf r manual p d t rnd s) = activeBox s"
    and "best_match d = Some m \<and> bbox m = Some b \<longrightarrow>
       result (processFrame_data pf r manual p d t rnd s) = Some m
       \<and> activeBox (processFrame_data pf r manual p d t rnd s)
           = Some \<lparr>box = scaledBox pf p b, box_label = label m\<rparr>"
    and "isConnected (processFrame_data pf r manual p d t rnd s) = isConnected s"
  using assms
  by (auto simp: processFrame_data_def Let_def emit_def setLogs_def split: option.splits)

text \<open>
  Claim C9, as amended. For a photo whose width or height is zero (on a window of positive
  dimensions) the screen makes no check and raises no error: the division yields
  infinity, \<open>scale\<close> is infinite, the call completes on the success path with
  \<^verbatim>\<open>isConnected\<close> true, and the box of a match is set to coordinates none of which is a
  finite number.
\<close>

theorem zero_dimension:
  assumes "width p = 0 \<or> height p = 0" and "0 \<le> width p" and "0 \<le> height p"
    and "0 < SCREEN_WIDTH pf" and "0 < SCREEN_HEIGHT pf"
    and "cameraRef pf" and "\<not> (r_scanning r \<and> \<not> r_isAutoScan r)"
    and "capture w = Inr p" and "fetch pf (build_request r) (net w) = Inr resp"
    and "ok resp" and "json resp = Inr d" and "\<not> skipped d"
    and "best_match d = Some m" and "bbox m = Some b"
  shows "scale pf p = PInf
    \<and> fst (processFrame pf r manual w s) = Completed
    \<and> isConnected (snd (processFrame pf r manual w s))
    \<and> activeBox (snd (processFrame pf r manual w s))
        = Some \<lparr>box = scaledBox pf p b, box_label = label m\<rparr>
    \<and> list_all (\<lambda>x. \<not> finite_num x) (scaledBox pf p b)"
proof -
  have sc: "scale pf p = PInf"
    using assms(1-5) by (rule scale_zero)
  from offsets_zero [OF sc assms(2,3)]
  have nf: "list_all (\<lambda>x. \<not> finite_num x) (scaledBox pf p b)"
    by (simp add: scaledBox_def js_add_nonfinite)
  from processFrame_Completed [OF assms(6-12), of manual s] obtain s1 where
    pf: "processFrame pf r manual w s
     = (Completed, processFrame_finally (processFrame_data pf r manual p d
          (endTime w - startTime w) (random w) (s1\<lparr>isConnected := True\<rparr>)))"
    by blast
  from data_box_result(3,4) [OF assms(12)] assms(13,14)
  have "isConnected (snd (processFrame pf r manual w s))"
    "activeBox (snd (processFrame pf r manual w s))
        = Some \<lparr>box = scaledBox pf p b, box_label = label m\<rparr>"
    by (simp_all add: pf processFrame_finally_def)
  with sc nf pf show ?thesis by simp
qed

text \<open>
  Claim C9 as stated fails: a manual scan whose photo is 0 by 480 does not end in the
  \<^verbatim>\<open>catch\<close> block; it completes and sets the active box to four NaN.
\<close>

theorem zero_dimension_counterexample:
  "scale phone \<lparr>width = 0, height = 480\<rparr> = PInf
   \<and> processFrame phone manual_render True
        \<lparr>capture = Inr \<lparr>width = 0, height = 480\<rparr>,
         net = Settles 100 (Resolves (respond detection)), startTime = 0, endTime = 150,
         random = 0\<rparr> initial
     = (Completed,
        initial\<lparr>result := Some tiger,
                activeBox := Some \<lparr>box = [NaN, NaN, NaN, NaN], box_label = ''tiger''\<rparr>,
                emitted := [ImpactLight, NotificationSuccess, Speak ''tiger'']\<rparr>)"
  by (simp add: processFrame_def manual_render_def model_defs)

theorem zero_dimension_witness:
  "(width \<lparr>width = 0, height = 480\<rparr> = (0::real) \<or> height \<lparr>width = 0, height = 480::real\<rparr> = 0)
   \<and> scale phone \<lparr>width = 0, height = 480\<rparr> = PInf
   \<and> fst (processFrame phone manual_render True
        \<lparr>capture = Inr \<lparr>width = 0, height = 480\<rparr>,
         net = Settles 100 (Resolves (respond detection)), startTime = 0, endTime = 150,
         random = 0\<rparr> initial) = Completed
   \<and> list_all (\<lambda>x. \<not> finite_num x) (scaledBox phone \<lparr>width = 0, height = 480\<rparr> [100, 100, 200, 200])"
proof -
  let ?p = "\<lparr>width = 0, height = 480 :: real\<rparr>"
  let ?w = "\<lparr>capture = Inr ?p,
         net = Settles 100 (Resolves (respond detection)), startTime = 0, endTime = 150,
         random = 0\<rparr>"
  have h: "width ?p = 0 \<or> height ?p = 0" "0 \<le> width ?p" "0 \<le> height ?p"
    "0 < SCREEN_WIDTH phone" "0 < SCREEN_HEIGHT phone" "cameraRef phone"
    "\<not> (r_scanning manual_render \<and> \<not> r_isAutoScan manual_render)"
    "capture ?w = Inr ?p"
    "fetch phone (build_request manual_render) (net ?w) = Inr (respond detection)"
    "ok (respond detection)" "json (respond detection) = Inr detection"
    "\<not> skipped detection" "best_match detection = Some tiger"
    "bbox tiger = Some [100, 100, 200, 200]"
    by (simp_all add: phone_def manual_render_def fetch_def build_request_def respond_def
        detection_def tiger_def)
  from zero_dimension [OF h, of True initial] h(1) show ?thesis by simp
qed

section \<open>Properties of the event loop\<close>

text \<open>
  Claim C10. The frame counter grows by one on a success, but the \<^verbatim>\<open>frame_idx\<close> of the
  requests does not follow it: the loop keeps calling the \<^verbatim>\<open>processFrame\<close> of the render
  in which auto mode was switched on. After one completed cycle the counter is 1 and the
  second request again carries \<^verbatim>\<open>frame_idx\<close> 0.
\<close>

theorem stale_frame_idx:
  "frameCounter (ui (run phone [Toggle 0, Captured 0 (Inr vga) 10,
         Fetched 0 (Settles 10 (Resolves (respond detection))) 30, Parsed 0 40 0.5,
         TimerFired 1 200] mounted)) = 1
   \<and> map (\<lambda>c. frame_idx (build_request (c_render c)))
       (calls (run phone [Toggle 0, Captured 0 (Inr vga) 10,
         Fetched 0 (Settles 10 (Resolves (respond detection))) 30, Parsed 0 40 0.5,
         TimerFired 1 200] mounted)) = [Some 0, Some 0]
   \<and> map phase
       (calls (run phone [Toggle 0, Captured 0 (Inr vga) 10,
         Fetched 0 (Settles 10 (Resolves (respond detection))) 30, Parsed 0 40 0.5,
         TimerFired 1 200] mounted)) = [Settled, Capturing]"
  by (simp add: model_defs)

lemma begin_box_result:
  "processFrame_begin pf r manual s = Some s1 \<Longrightarrow>
     activeBox s1 = activeBox s \<and> isAutoScan s1 = isAutoScan s
     \<and> result s1 = (if manual then None else result s)"
  by (auto simp: processFrame_begin_def Let_def emit_def split: if_splits)

lemma loop_enter_box_result:
  "activeBox (ui (loop_enter pf j now sys)) = activeBox (ui sys)
   \<and> result (ui (loop_enter pf j now sys)) = result (ui sys)
   \<and> isAutoScan (ui (loop_enter pf j now sys)) = isAutoScan (ui sys)"
  by (auto simp: loop_enter_def Let_def dest: begin_box_result split: option.splits)

lemma toggle_box_result:
  "activeBox (ui (toggle pf now sys)) = (if isAutoScan (ui sys) then None else activeBox (ui sys))
   \<and> result (ui (toggle pf now sys)) = result (ui sys)
   \<and> isAutoScan (ui (toggle pf now sys)) = (\<not> isAutoScan (ui sys))"
  by (simp add: toggle_def Let_def setLogs_def loop_enter_box_result)

lemma press_box_result:
  "activeBox (ui (press pf now sys)) = activeBox (ui sys)
   \<and> (result (ui (press pf now sys)) = result (ui sys) \<or> result (ui (press pf now sys)) = None)"
  by (auto simp: press_def Let_def dest: begin_box_result split: option.splits)

lemma fail_call_box_result:
  "activeBox (ui (fail_call i now e sys)) = activeBox (ui sys)
   \<and> result (ui (fail_call i now e sys)) = result (ui sys)"
  by (simp add: fail_call_def ui_finish processFrame_finally_def processFrame_catch_def
      Let_def setLogs_def emit_def)

lemma data_cases:
  "(activeBox (processFrame_finally (processFrame_data pf r manual p d t rnd s)) = activeBox s
     \<and> result (processFrame_finally (processFrame_data pf r manual p d t rnd s)) \<noteq> None)
   \<or> (activeBox (processFrame_finally (processFrame_data pf r manual p d t rnd s)) = activeBox s
     \<and> result (processFrame_finally (processFrame_data pf r manual p d t rnd s)) = result s)
   \<or> (activeBox (processFrame_finally (processFrame_data pf r manual p d t rnd s)) = None
     \<and> result (processFrame_finally (processFrame_data pf r manual p d t rnd s)) = Some noMatch)
   \<or> (\<exists>m b. best_match d = Some m
     \<and> result (processFrame_finally (processFrame_data pf r manual p d t rnd s)) = Some m
     \<and> bbox m = Some b
     \<and> activeBox (processFrame_finally (processFrame_data pf r manual p d t rnd s))
         = Some \<lparr>box = scaledBox pf p b, box_label = label m\<rparr>)"
proof (cases "skipped d")
  case True
  then show ?thesis by (simp add: data_skipped)
next
  case False
  show ?thesis
  proof (cases "best_match d")
    case None
    with data_box_result(1) [OF False] show ?thesis
      by (simp add: processFrame_finally_def)
  next
    case (Some m)
    show ?thesis
    proof (cases "bbox m")
      case None
      with Some data_box_result(2) [OF False, of m] show ?thesis
        by (simp add: processFrame_finally_def)
    next
      case (Some b)
      with \<open>best_match d = Some m\<close> data_box_result(3) [OF False, of m b] show ?thesis
        by (simp add: processFrame_finally_def)
    qed
  qed
qed

lemma step_cases:
  "(activeBox (ui (step pf ev sys)) = activeBox (ui sys)
     \<and> (result (ui (step pf ev sys)) = result (ui sys)
        \<or> result (ui (step pf ev sys)) \<noteq> None
        \<or> (\<exists>now. ev = Press now)))
   \<or> (activeBox (ui (step pf ev sys)) = None
       \<and> result (ui (step pf ev sys)) = Some noMatch)
   \<or> (activeBox (ui (step pf ev sys)) = None
       \<and> result (ui (step pf ev sys)) = result (ui sys)
       \<and> \<not> isAutoScan (ui (step pf ev sys)) \<and> (\<exists>now. ev = Toggle now))
   \<or> (\<exists>i now rnd p d m b. ev = Parsed i now rnd \<and> i < length (calls sys)
        \<and> phase (calls sys ! i) = Parsing p (Inr d) \<and> best_match d = Some m
        \<and> bbox m = Some b \<and> result (ui (step pf ev sys)) = Some m
        \<and> activeBox (ui (step pf ev sys))
            = Some \<lparr>box = scaledBox pf p b, box_label = label m\<rparr>)"
proof (cases ev)
  case (Toggle now)
  with toggle_box_result [of pf now sys] show ?thesis by (cases "isAutoScan (ui sys)") auto
next
  case (Press now)
  with press_box_result [of pf now sys] show ?thesis by auto
next
  case (Captured i r now)
  then show ?thesis
    by (simp add: fail_call_box_result split: phase.splits sum.splits)
next
  case (Fetched i n now)
  then show ?thesis
    by (simp add: fail_call_box_result split: phase.splits sum.splits)
next
  case (Parsed i now rnd)
  show ?thesis
  proof (cases "i < length (calls sys)")
    case False
    with Parsed show ?thesis by simp
  next
    case True
    show ?thesis
    proof (cases "phase (calls sys ! i)")
      case (Parsing p b)
      show ?thesis
      proof (cases b)
        case (Inl msg)
        with Parsed True Parsing show ?thesis by (simp add: fail_call_box_result)
      next
        case (Inr d)
        with Parsed True Parsing
        have u: "ui (step pf ev sys) = processFrame_finally
           (processFrame_data pf (c_render (calls sys ! i)) (isManualScan (calls sys ! i)) p d
              (now - c_startTime (calls sys ! i)) rnd (ui sys))"
          by (simp add: ui_finish)
        have ph: "phase (calls sys ! i) = Parsing p (Inr d)"
          using Parsing Inr by simp
        from data_cases [of pf "c_render (calls sys ! i)" "isManualScan (calls sys ! i)" p d
            "now - c_startTime (calls sys ! i)" rnd "ui sys"] Parsed True ph
        show ?thesis unfolding u by blast
      qed
    qed (use Parsed True in simp_all)
  qed
next
  case (TimerFired j now)
  then show ?thesis
    by (simp add: loop_enter_box_result split: loop_pc.splits)
qed

text \<open>
  Claim C7, as amended. In every turn of the event loop: when the active box is set to a
  new box, the turn is the arrival of the body of a call, the result after that turn is
  the match of that body, the match has a bounding box, and the active box is that
  bounding box under the cover transform of the photo of that call, with the label of the
  match; when the active box is cleared, either the result after that turn is the
  "No Match" object, or the turn is the switch to manual mode and the result is
  unchanged; and when the result is cleared, the turn is a press of the trigger and the
  active box is unchanged.
\<close>

theorem overlay_with_result:
  "(activeBox (ui (step pf ev sys)) \<noteq> activeBox (ui sys)
      \<and> activeBox (ui (step pf ev sys)) \<noteq> None
    \<longrightarrow> (\<exists>i now rnd p d m b. ev = Parsed i now rnd \<and> i < length (calls sys)
          \<and> phase (calls sys ! i) = Parsing p (Inr d) \<and> best_match d = Some m
          \<and> bbox m = Some b \<and> result (ui (step pf ev sys)) = Some m
          \<and> activeBox (ui (step pf ev sys))
              = Some \<lparr>box = scaledBox pf p b, box_label = label m\<rparr>))
   \<and> (activeBox (ui (step pf ev sys)) \<noteq> activeBox (ui sys)
      \<and> activeBox (ui (step pf ev sys)) = None
    \<longrightarrow> result (ui (step pf ev sys)) = Some noMatch
        \<or> ((\<exists>now. ev = Toggle now) \<and> \<not> isAutoScan (ui (step pf ev sys))
           \<and> result (ui (step pf ev sys)) = result (ui sys)))
   \<and> (result (ui (step pf ev sys)) \<noteq> result (ui sys)
      \<and> result (ui (step pf ev sys)) = None
    \<longrightarrow> (\<exists>now. ev = Press now) \<and> activeBox (ui (step pf ev sys)) = activeBox (ui sys))"
  using step_cases [of pf ev sys] by (elim disjE) auto

text \<open>
  Claim C7 as stated fails: after a manual scan that found a match with a box, pressing
  the trigger again gives a state whose result is null while the active box is still set.
\<close>

theorem overlay_with_result_counterexample:
  "result (ui (run phone (manual_found @ [Press 1000]) mounted)) = None
   \<and> activeBox (ui (run phone (manual_found @ [Press 1000]) mounted))
       = Some \<lparr>box = [Num (- 340), Num 400, Num 60, Num 800], box_label = ''tiger''\<rparr>"
  by (simp add: manual_found_def model_defs)

lemma found_state:
  "ui (run phone manual_found mounted)
     = \<lparr>scanning = False, result = Some tiger, isAutoScan = False, isConnected = True,
        logs = [MANUAL_MODE, SYSTEM_INITIALIZED, SENSORS_ONLINE], frameCounter = 0, fps = 0,
        activeBox = Some \<lparr>box = [Num (- 340), Num 400, Num 60, Num 800], box_label = ''tiger''\<rparr>,
        emitted = [ImpactLight, NotificationSuccess, Speak ''tiger'']\<rparr>"
  by (simp add: manual_found_def model_defs)

lemma parsing_state:
  "activeBox (ui (run phone manual_parsing mounted)) = None"
  "length (calls (run phone manual_parsing mounted)) = 1"
  "phase (calls (run phone manual_parsing mounted) ! 0) = Parsing vga (Inr detection)"
  "activeBox (ui (step phone (Parsed 0 120 0.5) (run phone manual_parsing mounted)))
     = Some \<lparr>box = [Num (- 340), Num 400, Num 60, Num 800], box_label = ''tiger''\<rparr>"
  by (simp_all add: manual_parsing_def model_defs)

theorem overlay_with_result_witness:
  "activeBox (ui (step phone (Parsed 0 120 0.5) (run phone manual_parsing mounted)))
      \<noteq> activeBox (ui (run phone manual_parsing mounted))
   \<and> activeBox (ui (step phone (Parsed 0 120 0.5) (run phone manual_parsing mounted)))
      = Some \<lparr>box = [Num (- 340), Num 400, Num 60, Num 800], box_label = ''tiger''\<rparr>
   \<and> phase (calls (run phone manual_parsing mounted) ! 0) = Parsing vga (Inr detection)
   \<and> result (ui (step phone (Parsed 0 120 0.5) (run phone manual_parsing mounted))) = Some tiger
   \<and> activeBox (ui (step phone (Parsed 0 120 0.5) (run phone manual_parsing mounted)))
      = Some \<lparr>box = scaledBox phone vga [100, 100, 200, 200], box_label = label tiger\<rparr>
   \<and> result (ui (step phone (Press 1000) (run phone manual_found mounted)))
      \<noteq> result (ui (run phone manual_found mounted))
   \<and> result (ui (step phone (Press 1000) (run phone manual_found mounted))) = None
   \<and> activeBox (ui (step phone (Press 1000) (run phone manual_found mounted)))
      = activeBox (ui (run phone manual_found mounted))
   \<and> activeBox (ui (step phone (Toggle 200) (step phone (Toggle 130) (run phone manual_found mounted))))
      \<noteq> activeBox (ui (step phone (Toggle 130) (run phone manual_found mounted)))
   \<and> activeBox (ui (step phone (Toggle 200) (step phone (Toggle 130) (run phone manual_found mounted))))
      = None
   \<and> result (ui (step phone (Toggle 200) (step phone (Toggle 130) (run phone manual_found mounted))))
      = Some tiger"
proof -
  let ?s = "run phone manual_found mounted"
  have cam: "cameraRef phone" by (simp add: phone_def)
  have a: "result (ui (step phone (Press 1000) ?s)) \<noteq> result (ui ?s)"
    "result (ui (step phone (Press 1000) ?s)) = None"
    by (simp_all add: found_state press_def processFrame_begin_def render_of_def cam
        emit_def Let_def)
  have b: "activeBox (ui (step phone (Toggle 200) (step phone (Toggle 130) ?s)))
      \<noteq> activeBox (ui (step phone (Toggle 130) ?s))"
    "activeBox (ui (step phone (Toggle 200) (step phone (Toggle 130) ?s))) = None"
    "result (ui (step phone (Toggle 200) (step phone (Toggle 130) ?s))) = Some tiger"
    by (simp_all add: toggle_box_result found_state)
  let ?q = "run phone manual_parsing mounted"
  have c: "activeBox (ui (step phone (Parsed 0 120 0.5) ?q)) \<noteq> activeBox (ui ?q)"
    "activeBox (ui (step phone (Parsed 0 120 0.5) ?q)) \<noteq> None"
    unfolding parsing_state by simp_all
  with overlay_with_result [of phone "Parsed 0 120 0.5" ?q]
  obtain i now rnd p d m bb where
    e: "Parsed 0 120 0.5 = Parsed i now rnd"
      "phase (calls ?q ! i) = Parsing p (Inr d)" "best_match d = Some m" "bbox m = Some bb"
      "result (ui (step phone (Parsed 0 120 0.5) ?q)) = Some m"
      "activeBox (ui (step phone (Parsed 0 120 0.5) ?q))
         = Some \<lparr>box = scaledBox phone p bb, box_label = label m\<rparr>"
    by blast
  from e(1) have "i = 0" by simp
  with e(2) parsing_state(3) have "p = vga" "d = detection" by simp_all
  with e(3) have m: "m = tiger" by (simp add: detection_def)
  with e(4) have "bb = [100, 100, 200, 200]" by (simp add: tiger_def)
  with e(5,6) m \<open>p = vga\<close>
  have g: "result (ui (step phone (Parsed 0 120 0.5) ?q)) = Some tiger"
    "activeBox (ui (step phone (Parsed 0 120 0.5) ?q))
       = Some \<lparr>box = scaledBox phone vga [100, 100, 200, 200], box_label = label tiger\<rparr>"
    by simp_all
  from a b c(1) g parsing_state(3,4) overlay_with_result [of phone "Press 1000" ?s]
    overlay_with_result [of phone "Toggle 200" "step phone (Toggle 130) ?s"]
  show ?thesis by simp
qed

text \<open>
  Claim C8, as amended. Switching auto mode off leaves the calls as they are and
  deactivates the latest effect run; a deactivated loop starts no call when its timer
  fires and stops there, and stops when the call it awaits ends; but a body that arrives
  for a call is applied whatever the mode is by then: a match with a box sets the result
  and the active box.
\<close>

theorem late_completion:
  "(isAutoScan (ui sys) \<and> loops sys \<noteq> [] \<longrightarrow>
      \<not> isAutoScan (ui (step pf (Toggle now) sys))
      \<and> calls (step pf (Toggle now) sys) = calls sys
      \<and> \<not> isActive (loops (step pf (Toggle now) sys) ! (length (loops sys) - 1)))
   \<and> (j < length (loops sys) \<and> \<not> isActive (loops sys ! j) \<longrightarrow>
      calls (step pf (TimerFired j now) sys) = calls sys)
   \<and> (j < length (loops sys) \<and> \<not> isActive (loops sys ! j)
        \<and> pc (loops sys ! j) = TimerArmed due \<and> due \<le> real_of_int now \<longrightarrow>
      pc (loops (step pf (TimerFired j now) sys) ! j) = Finished)
   \<and> (j < length (loops sys) \<and> \<not> isActive (loops sys ! j)
        \<and> awaited_by (calls sys ! i) = Some j \<and> pc (loops sys ! j) = Awaiting i d \<longrightarrow>
      pc (loops (finish i now f sys) ! j) = Finished
      \<and> length (calls (finish i now f sys)) = length (calls sys))
   \<and> (i < length (calls sys) \<and> phase (calls sys ! i) = Parsing p (Inr dt)
        \<and> \<not> skipped dt \<and> best_match dt = Some m \<and> bbox m = Some b \<longrightarrow>
      result (ui (step pf (Parsed i now rnd) sys)) = Some m
      \<and> activeBox (ui (step pf (Parsed i now rnd) sys))
          = Some \<lparr>box = scaledBox pf p b, box_label = label m\<rparr>)"
proof -
  have a: "isAutoScan (ui sys) \<and> loops sys \<noteq> [] \<longrightarrow>
      \<not> isAutoScan (ui (step pf (Toggle now) sys))
      \<and> calls (step pf (Toggle now) sys) = calls sys
      \<and> \<not> isActive (loops (step pf (Toggle now) sys) ! (length (loops sys) - 1))"
    by (simp add: toggle_def Let_def cleanup_def setLogs_def nth_append)
  have b: "j < length (loops sys) \<and> \<not> isActive (loops sys ! j) \<longrightarrow>
      calls (step pf (TimerFired j now) sys) = calls sys"
    by (simp add: loop_enter_def Let_def split: loop_pc.splits)
  have b': "j < length (loops sys) \<and> \<not> isActive (loops sys ! j)
        \<and> pc (loops sys ! j) = TimerArmed due \<and> due \<le> real_of_int now \<longrightarrow>
      pc (loops (step pf (TimerFired j now) sys) ! j) = Finished"
    by (simp add: loop_enter_def Let_def)
  have c: "j < length (loops sys) \<and> \<not> isActive (loops sys ! j)
        \<and> awaited_by (calls sys ! i) = Some j \<and> pc (loops sys ! j) = Awaiting i d \<longrightarrow>
      pc (loops (finish i now f sys) ! j) = Finished
      \<and> length (calls (finish i now f sys)) = length (calls sys)"
    by (simp add: finish_def loop_resume_def Let_def)
  have d: "i < length (calls sys) \<and> phase (calls sys ! i) = Parsing p (Inr dt)
        \<and> \<not> skipped dt \<and> best_match dt = Some m \<and> bbox m = Some b \<longrightarrow>
      result (ui (step pf (Parsed i now rnd) sys)) = Some m
      \<and> activeBox (ui (step pf (Parsed i now rnd) sys))
          = Some \<lparr>box = scaledBox pf p b, box_label = label m\<rparr>"
  proof
    assume h: "i < length (calls sys) \<and> phase (calls sys ! i) = Parsing p (Inr dt)
        \<and> \<not> skipped dt \<and> best_match dt = Some m \<and> bbox m = Some b"
    then have ns: "\<not> skipped dt" by simp
    from h data_box_result(3) [OF ns, of m b]
    show "result (ui (step pf (Parsed i now rnd) sys)) = Some m
      \<and> activeBox (ui (step pf (Parsed i now rnd) sys))
          = Some \<lparr>box = scaledBox pf p b, box_label = label m\<rparr>"
      by (simp add: ui_finish processFrame_finally_def)
  qed
  from a b b' c d show ?thesis by blast
qed

text \<open>
  Claim C8 as stated fails: auto mode is switched on and off again while the first call
  of the loop is in flight; the switch clears the active box, and the body that arrives
  afterwards sets the result and the active box in manual mode.
\<close>

theorem late_completion_counterexample:
  "isAutoScan (ui (run phone auto_pending mounted)) = False
   \<and> activeBox (ui (run phone auto_pending mounted)) = None
   \<and> result (ui (run phone auto_pending mounted)) = None
   \<and> map isManualScan (calls (run phone auto_pending mounted)) = [False]
   \<and> isAutoScan (ui (run phone (auto_pending @ [Parsed 0 40 0.5]) mounted)) = False
   \<and> activeBox (ui (run phone (auto_pending @ [Parsed 0 40 0.5]) mounted))
       = Some \<lparr>box = [Num (- 340), Num 400, Num 60, Num 800], box_label = ''tiger''\<rparr>
   \<and> result (ui (run phone (auto_pending @ [Parsed 0 40 0.5]) mounted)) = Some tiger"
  by (simp add: auto_pending_def model_defs)

lemma call_invD:
  "call_inv sys \<Longrightarrow> k < length (calls sys) \<Longrightarrow> awaited_by (calls sys ! k) = Some j
     \<Longrightarrow> phase (calls sys ! k) \<noteq> Settled
     \<Longrightarrow> j < length (loops sys) \<and> (\<exists>d. pc (loops sys ! j) = Awaiting k d)"
  unfolding call_inv_def by blast

lemma call_invI:
  "(\<And>k j. k < length (calls sys) \<Longrightarrow> awaited_by (calls sys ! k) = Some j
     \<Longrightarrow> phase (calls sys ! k) \<noteq> Settled
     \<Longrightarrow> j < length (loops sys) \<and> (\<exists>d. pc (loops sys ! j) = Awaiting k d))
   \<Longrightarrow> call_inv sys"
  unfolding call_inv_def by blast

lemma call_inv_cong:
  "calls sys' = calls sys \<Longrightarrow> loops sys' = loops sys \<Longrightarrow> call_inv sys' = call_inv sys"
  by (simp add: call_inv_def)

lemma length_cleanup: "length (cleanup ls) = length ls"
  by (simp add: cleanup_def)

lemma pc_cleanup: "j < length ls \<Longrightarrow> pc (cleanup ls ! j) = pc (ls ! j)"
  by (cases "j = length ls - 1") (simp_all add: cleanup_def last_conv_nth)

text \<open>Adding a loop, and changing a loop that no unsettled call waits for.\<close>

lemma call_inv_add_loop:
  assumes "call_inv sys" and "calls sys' = calls sys" and "loops sys' = cleanup (loops sys) @ [l]"
  shows "call_inv sys'"
proof (rule call_invI)
  fix k j
  assume "k < length (calls sys')" "awaited_by (calls sys' ! k) = Some j"
    "phase (calls sys' ! k) \<noteq> Settled"
  with assms(2) call_invD [OF assms(1), of k j]
  have j: "j < length (loops sys)" and "\<exists>d. pc (loops sys ! j) = Awaiting k d" by simp_all
  then obtain d where "pc (loops sys ! j) = Awaiting k d" by blast
  with j have "pc (loops sys' ! j) = Awaiting k d"
    by (simp add: assms(3) nth_append length_cleanup pc_cleanup)
  with j show "j < length (loops sys') \<and> (\<exists>d. pc (loops sys' ! j) = Awaiting k d)"
    by (simp add: assms(3) length_cleanup)
qed

lemma call_inv_idle_loop:
  assumes "call_inv sys" and "calls sys' = calls sys" and "loops sys' = (loops sys)[j := l]"
    and idle: "\<And>k. k < length (calls sys) \<Longrightarrow> awaited_by (calls sys ! k) = Some j
           \<Longrightarrow> phase (calls sys ! k) = Settled"
  shows "call_inv sys'"
proof (rule call_invI)
  fix k j'
  assume h: "k < length (calls sys')" "awaited_by (calls sys' ! k) = Some j'"
    "phase (calls sys' ! k) \<noteq> Settled"
  with assms(2) idle [of k] have ne: "j' \<noteq> j" by auto
  from h assms(2) call_invD [OF assms(1), of k j']
  have "j' < length (loops sys)" and "\<exists>d. pc (loops sys ! j') = Awaiting k d" by simp_all
  with ne show "j' < length (loops sys') \<and> (\<exists>d. pc (loops sys' ! j') = Awaiting k d)"
    by (simp add: assms(3))
qed

lemma call_inv_new_call:
  assumes "call_inv sys" and j: "j < length (loops sys)"
    and "calls sys' = calls sys @ [c]" and "awaited_by c = Some j"
    and "loops sys' = (loops sys)[j := l]" and "pc l = Awaiting (length (calls sys)) d"
    and idle: "\<And>k. k < length (calls sys) \<Longrightarrow> awaited_by (calls sys ! k) = Some j
           \<Longrightarrow> phase (calls sys ! k) = Settled"
  shows "call_inv sys'"
proof (rule call_invI)
  fix k j'
  assume h: "k < length (calls sys')" "awaited_by (calls sys' ! k) = Some j'"
    "phase (calls sys' ! k) \<noteq> Settled"
  show "j' < length (loops sys') \<and> (\<exists>d. pc (loops sys' ! j') = Awaiting k d)"
  proof (cases "k < length (calls sys)")
    case True
    with h assms(3) have o: "awaited_by (calls sys ! k) = Some j'" "phase (calls sys ! k) \<noteq> Settled"
      by (simp_all add: nth_append)
    with idle [OF True] have ne: "j' \<noteq> j" by auto
    from call_invD [OF assms(1) True o]
    have "j' < length (loops sys)" and "\<exists>d. pc (loops sys ! j') = Awaiting k d" by simp_all
    with ne show ?thesis by (simp add: assms(5))
  next
    case False
    with h(1) assms(3) have k: "k = length (calls sys)" by simp
    with h(2) assms(3,4) have "j' = j" by simp
    with j k assms(5,6) show ?thesis by simp
  qed
qed

lemma call_inv_loop_enter:
  assumes "call_inv sys" and j: "j < length (loops sys)"
    and idle: "\<And>k. k < length (calls sys) \<Longrightarrow> awaited_by (calls sys ! k) = Some j
           \<Longrightarrow> phase (calls sys ! k) = Settled"
  shows "call_inv (loop_enter pf j now sys)"
proof (cases "\<not> isActive (loops sys ! j) \<or> \<not> r_isAutoScan (l_render (loops sys ! j))")
  case True
  show ?thesis
    by (rule call_inv_idle_loop [OF assms(1) _ _ idle, where l = "(loops sys ! j)\<lparr>pc := Finished\<rparr>"])
      (use True in \<open>simp_all add: loop_enter_def Let_def\<close>)
next
  case False
  let ?d = "max 0 (targetInterval - real_of_int (now - lastFrameTime (loops sys ! j)))"
  show ?thesis
  proof (cases "processFrame_begin pf (l_render (loops sys ! j)) False (ui sys)")
    case None
    show ?thesis
      by (rule call_inv_idle_loop [OF assms(1) _ _ idle,
            where l = "loop_resume now ?d (loops sys ! j)"])
        (use False None in \<open>simp_all add: loop_enter_def Let_def\<close>)
  next
    case (Some s1)
    show ?thesis
      by (rule call_inv_new_call [OF assms(1) j _ _ _ _ idle,
            where l = "(loops sys ! j)\<lparr>pc := Awaiting (length (calls sys)) ?d\<rparr>"
              and c = "\<lparr>isManualScan = False, c_render = l_render (loops sys ! j),
                            c_startTime = now, phase = Capturing, awaited_by = Some j\<rparr>"
              and d = ?d])
        (use False Some in \<open>simp_all add: loop_enter_def Let_def\<close>)
  qed
qed

lemma call_inv_toggle:
  assumes "call_inv sys"
  shows "call_inv (toggle pf now sys)"
proof (cases "isAutoScan (ui sys)")
  case True
  show ?thesis
    by (rule call_inv_add_loop [OF assms]) (use True in \<open>simp_all add: toggle_def Let_def\<close>)
next
  case False
  let ?l = "\<lparr>isActive = True, l_render = render_of ((ui sys)\<lparr>isAutoScan := True\<rparr>),
              lastFrameTime = now, pc = Finished\<rparr>"
  let ?sys = "sys\<lparr>ui := (ui sys)\<lparr>isAutoScan := True\<rparr>, loops := cleanup (loops sys) @ [?l]\<rparr>"
  let ?j = "length (cleanup (loops sys))"
  have inv: "call_inv ?sys"
    by (rule call_inv_add_loop [OF assms]) simp_all
  have j: "?j < length (loops ?sys)" by simp
  have idle: "phase (calls ?sys ! k) = Settled"
    if "k < length (calls ?sys)" "awaited_by (calls ?sys ! k) = Some ?j" for k
  proof (rule ccontr)
    assume "phase (calls ?sys ! k) \<noteq> Settled"
    with that call_invD [OF assms, of k ?j] show False by (simp add: length_cleanup)
  qed
  have "call_inv (loop_enter pf ?j now ?sys)"
    by (rule call_inv_loop_enter [OF inv j idle])
  moreover have "toggle pf now sys
      = (loop_enter pf ?j now ?sys)\<lparr>ui := setLogs AUTO_SCAN_ENABLED (ui (loop_enter pf ?j now ?sys))\<rparr>"
    using False by (simp add: toggle_def Let_def)
  ultimately show ?thesis
    by (simp add: call_inv_cong [of "(loop_enter pf ?j now ?sys)\<lparr>ui := setLogs AUTO_SCAN_ENABLED (ui (loop_enter pf ?j now ?sys))\<rparr>" "loop_enter pf ?j now ?sys"])
qed

lemma call_inv_press:
  assumes "call_inv sys"
  shows "call_inv (press pf now sys)"
proof (cases "isAutoScan (ui sys) \<or> scanning (ui sys)")
  case True
  with assms show ?thesis by (simp add: press_def Let_def)
next
  case False
  show ?thesis
  proof (cases "processFrame_begin pf (render_of (ui sys)) True (ui sys)")
    case None
    with False assms show ?thesis by (simp add: press_def Let_def)
  next
    case (Some s1)
    let ?c = "\<lparr>isManualScan = True, c_render = render_of (ui sys),
                               c_startTime = now, phase = Capturing, awaited_by = None\<rparr>"
    have p: "press pf now sys = sys\<lparr>ui := s1, calls := calls sys @ [?c]\<rparr>"
      using False Some by (simp add: press_def Let_def)
    show ?thesis
    proof (rule call_invI)
      fix k j
      assume h: "k < length (calls (press pf now sys))"
        "awaited_by (calls (press pf now sys) ! k) = Some j"
        "phase (calls (press pf now sys) ! k) \<noteq> Settled"
      have "k < length (calls sys)"
      proof (rule ccontr)
        assume "\<not> k < length (calls sys)"
        with h(1) have "k = length (calls sys)" by (simp add: p)
        with h(2) show False by (simp add: p)
      qed
      with h call_invD [OF assms, of k j]
      show "j < length (loops (press pf now sys))
          \<and> (\<exists>d. pc (loops (press pf now sys) ! j) = Awaiting k d)"
        by (simp add: p nth_append)
    qed
  qed
qed

lemma call_inv_phase:
  assumes "call_inv sys" and "i < length (calls sys)" and "phase (calls sys ! i) \<noteq> Settled"
    and "calls sys' = (calls sys)[i := (calls sys ! i)\<lparr>phase := ph\<rparr>]"
    and "loops sys' = loops sys"
  shows "call_inv sys'"
proof (rule call_invI)
  fix k j
  assume h: "k < length (calls sys')" "awaited_by (calls sys' ! k) = Some j"
    "phase (calls sys' ! k) \<noteq> Settled"
  have "k < length (calls sys) \<and> awaited_by (calls sys ! k) = Some j
      \<and> phase (calls sys ! k) \<noteq> Settled"
    using h assms(2,3) by (cases "k = i") (simp_all add: assms(4))
  with call_invD [OF assms(1), of k j]
  show "j < length (loops sys') \<and> (\<exists>d. pc (loops sys' ! j) = Awaiting k d)"
    by (simp add: assms(5))
qed

lemma call_inv_finish:
  assumes "call_inv sys" and "i < length (calls sys)" and "phase (calls sys ! i) \<noteq> Settled"
  shows "call_inv (finish i now f sys)"
proof (cases "awaited_by (calls sys ! i)")
  case None
  then have c: "calls (finish i now f sys) = (calls sys)[i := (calls sys ! i)\<lparr>phase := Settled\<rparr>]"
    and l: "loops (finish i now f sys) = loops sys"
    by (simp_all add: finish_def Let_def)
  show ?thesis by (rule call_inv_phase [OF assms c l])
next
  case (Some j)
  with call_invD [OF assms(1,2) _ assms(3), of j] obtain d where
    j: "j < length (loops sys)" and pcj: "pc (loops sys ! j) = Awaiting i d"
    by blast
  have c: "calls (finish i now f sys) = (calls sys)[i := (calls sys ! i)\<lparr>phase := Settled\<rparr>]"
    and l: "loops (finish i now f sys) = (loops sys)[j := loop_resume now d (loops sys ! j)]"
    using Some pcj by (simp_all add: finish_def Let_def)
  show ?thesis
  proof (rule call_invI)
    fix k j'
    assume h: "k < length (calls (finish i now f sys))"
        "awaited_by (calls (finish i now f sys) ! k) = Some j'"
        "phase (calls (finish i now f sys) ! k) \<noteq> Settled"
    have ki: "k \<noteq> i"
    proof
      assume "k = i"
      with h(3) assms(2) show False by (simp add: c)
    qed
    with h have k: "k < length (calls sys)" "awaited_by (calls sys ! k) = Some j'"
        "phase (calls sys ! k) \<noteq> Settled"
      by (simp_all add: c)
    from call_invD [OF assms(1) k] obtain d' where
      j': "j' < length (loops sys)" and pcj': "pc (loops sys ! j') = Awaiting k d'"
      by blast
    have "j' \<noteq> j"
    proof
      assume "j' = j"
      with pcj pcj' ki show False by simp
    qed
    with j' pcj' show "j' < length (loops (finish i now f sys))
        \<and> (\<exists>d. pc (loops (finish i now f sys) ! j') = Awaiting k d)"
      by (simp add: l)
  qed
qed

lemma call_inv_fail_call:
  "call_inv sys \<Longrightarrow> i < length (calls sys) \<Longrightarrow> phase (calls sys ! i) \<noteq> Settled
     \<Longrightarrow> call_inv (fail_call i now e sys)"
  by (simp add: fail_call_def call_inv_finish)

lemma call_inv_step:
  assumes "call_inv sys"
  shows "call_inv (step pf ev sys)"
proof (cases ev)
  case (Toggle now)
  with assms show ?thesis by (simp add: call_inv_toggle)
next
  case (Press now)
  with assms show ?thesis by (simp add: call_inv_press)
next
  case (Captured i r now)
  show ?thesis
  proof (cases "i < length (calls sys) \<and> phase (calls sys ! i) = Capturing")
    case False
    with Captured assms show ?thesis by (auto split: phase.splits)
  next
    case True
    then have i: "i < length (calls sys)" and ns: "phase (calls sys ! i) \<noteq> Settled" by simp_all
    show ?thesis
    proof (cases r)
      case (Inl m)
      with Captured True call_inv_fail_call [OF assms i ns] show ?thesis by simp
    next
      case (Inr p)
      have "call_inv (sys\<lparr>calls := (calls sys)[i := (calls sys ! i)\<lparr>phase := Fetching p\<rparr>]\<rparr>)"
        by (rule call_inv_phase [OF assms i ns]) simp_all
      with Captured True Inr show ?thesis by simp
    qed
  qed
next
  case (Fetched i n now)
  show ?thesis
  proof (cases "i < length (calls sys)")
    case False
    with Fetched assms show ?thesis by simp
  next
    case i: True
    show ?thesis
    proof (cases "phase (calls sys ! i)")
      case (Fetching p)
      then have ns: "phase (calls sys ! i) \<noteq> Settled" by simp
      note fc = call_inv_fail_call [OF assms i ns]
      show ?thesis
      proof (cases "fetch pf (build_request (c_render (calls sys ! i))) n")
        case (Inl e)
        with Fetched i Fetching fc show ?thesis by simp
      next
        case (Inr resp)
        show ?thesis
        proof (cases "ok resp")
          case False
          with Fetched i Fetching Inr fc show ?thesis by simp
        next
          case True
          have "call_inv (sys\<lparr>ui := (ui sys)\<lparr>isConnected := True\<rparr>,
                   calls := (calls sys)[i := (calls sys ! i)\<lparr>phase := Parsing p (json resp)\<rparr>]\<rparr>)"
            by (rule call_inv_phase [OF assms i ns]) simp_all
          with Fetched i Fetching Inr True show ?thesis by simp
        qed
      qed
    qed (use Fetched i assms in simp_all)
  qed
next
  case (Parsed i now rnd)
  show ?thesis
  proof (cases "i < length (calls sys)")
    case False
    with Parsed assms show ?thesis by simp
  next
    case i: True
    show ?thesis
    proof (cases "phase (calls sys ! i)")
      case (Parsing p b)
      then have ns: "phase (calls sys ! i) \<noteq> Settled" by simp
      from Parsed i Parsing call_inv_fail_call [OF assms i ns] call_inv_finish [OF assms i ns]
      show ?thesis by (cases b) simp_all
    qed (use Parsed i assms in simp_all)
  qed
next
  case (TimerFired j now)
  show ?thesis
  proof (cases "j < length (loops sys)")
    case False
    with TimerFired assms show ?thesis by simp
  next
    case j: True
    show ?thesis
    proof (cases "pc (loops sys ! j)")
      case (TimerArmed due)
      have idle: "phase (calls sys ! k) = Settled"
        if "k < length (calls sys)" "awaited_by (calls sys ! k) = Some j" for k
      proof (rule ccontr)
        assume "phase (calls sys ! k) \<noteq> Settled"
        with that call_invD [OF assms, of k j] TimerArmed show False by auto
      qed
      from call_inv_loop_enter [OF assms j idle] TimerFired j TimerArmed assms
      show ?thesis by simp
    qed (use TimerFired j assms in simp_all)
  qed
qed

lemma call_inv_run: "call_inv sys \<Longrightarrow> call_inv (run pf evs sys)"
  by (induction evs arbitrary: sys) (simp_all add: call_inv_step)

lemma call_inv_mounted: "call_inv mounted"
  by (simp add: call_inv_def mounted_def)

lemma short_list:
  assumes "distinct xs" and "\<And>x y. x \<in> set xs \<Longrightarrow> y \<in> set xs \<Longrightarrow> x = y"
  shows "length xs \<le> 1"
proof (cases xs)
  case Nil
  then show ?thesis by simp
next
  case (Cons x ys)
  show ?thesis
  proof (cases ys)
    case Nil
    with Cons show ?thesis by simp
  next
    case (Cons y zs)
    with \<open>xs = x # ys\<close> assms(1) have "x \<noteq> y" by simp
    moreover from Cons \<open>xs = x # ys\<close> assms(2) [of x y] have "x = y" by simp
    ultimately show ?thesis by simp
  qed
qed

lemma in_flight_le_1:
  assumes "call_inv sys"
  shows "length (in_flight j sys) \<le> 1"
proof (rule short_list)
  show "distinct (in_flight j sys)" by (simp add: in_flight_def)
next
  fix x y
  assume "x \<in> set (in_flight j sys)" and "y \<in> set (in_flight j sys)"
  then have x: "x < length (calls sys)" "awaited_by (calls sys ! x) = Some j"
      "phase (calls sys ! x) \<noteq> Settled"
    and y: "y < length (calls sys)" "awaited_by (calls sys ! y) = Some j"
      "phase (calls sys ! y) \<noteq> Settled"
    by (simp_all add: in_flight_def)
  from call_invD [OF assms x] call_invD [OF assms y] show "x = y" by auto
qed

text \<open>
  Claim C2, as amended. \<open>targetInterval\<close> is 1000/15 ms. An active loop computes
  \<open>delay = max 0 (targetInterval - (now - lastFrameTime))\<close>, starts one call and is
  suspended on it; while it is suspended it has no timer; when the call ends, at time
  \<open>fin\<close>, the update of the call is applied, \<open>lastFrameTime\<close> becomes \<open>fin\<close> and the
  timer of the next cycle is armed for \<open>fin + delay\<close>, before which it does not fire.
  So after every sequence of events at most one call awaited by a given loop has not
  ended.
\<close>

theorem scheduler_awaits:
  "targetInterval = 1000 / 15
   \<and> (j < length (loops sys) \<and> isActive (loops sys ! j)
        \<and> r_isAutoScan (l_render (loops sys ! j)) \<and> cameraRef pf \<longrightarrow>
      pc (loops (loop_enter pf j now sys) ! j)
        = Awaiting (length (calls sys))
            (max 0 (targetInterval - real_of_int (now - lastFrameTime (loops sys ! j))))
      \<and> length (calls (loop_enter pf j now sys)) = length (calls sys) + 1)
   \<and> (j < length (loops sys) \<and> pc (loops sys ! j) = Awaiting i d \<longrightarrow>
      step pf (TimerFired j t) sys = sys)
   \<and> (j < length (loops sys) \<and> pc (loops sys ! j) = TimerArmed due \<and> real_of_int t < due \<longrightarrow>
      step pf (TimerFired j t) sys = sys)
   \<and> (j < length (loops sys) \<and> awaited_by (calls sys ! i) = Some j
        \<and> pc (loops sys ! j) = Awaiting i d \<and> isActive (loops sys ! j)
        \<and> r_isAutoScan (l_render (loops sys ! j)) \<longrightarrow>
      pc (loops (finish i fin f sys) ! j) = TimerArmed (real_of_int fin + d)
      \<and> lastFrameTime (loops (finish i fin f sys) ! j) = fin
      \<and> ui (finish i fin f sys) = f (ui sys))
   \<and> length (in_flight j (run pf evs mounted)) \<le> 1"
proof -
  have a: "targetInterval = 1000 / 15" by (simp add: targetInterval_def)
  have b: "j < length (loops sys) \<and> isActive (loops sys ! j)
        \<and> r_isAutoScan (l_render (loops sys ! j)) \<and> cameraRef pf \<longrightarrow>
      pc (loops (loop_enter pf j now sys) ! j)
        = Awaiting (length (calls sys))
            (max 0 (targetInterval - real_of_int (now - lastFrameTime (loops sys ! j))))
      \<and> length (calls (loop_enter pf j now sys)) = length (calls sys) + 1"
    by (simp add: loop_enter_def processFrame_begin_def Let_def)
  have c: "j < length (loops sys) \<and> pc (loops sys ! j) = Awaiting i d \<longrightarrow>
      step pf (TimerFired j t) sys = sys"
    by simp
  have d: "j < length (loops sys) \<and> pc (loops sys ! j) = TimerArmed due \<and> real_of_int t < due \<longrightarrow>
      step pf (TimerFired j t) sys = sys"
    by simp
  have e: "j < length (loops sys) \<and> awaited_by (calls sys ! i) = Some j
        \<and> pc (loops sys ! j) = Awaiting i d \<and> isActive (loops sys ! j)
        \<and> r_isAutoScan (l_render (loops sys ! j)) \<longrightarrow>
      pc (loops (finish i fin f sys) ! j) = TimerArmed (real_of_int fin + d)
      \<and> lastFrameTime (loops (finish i fin f sys) ! j) = fin
      \<and> ui (finish i fin f sys) = f (ui sys)"
    by (simp add: finish_def loop_resume_def Let_def)
  have g: "length (in_flight j (run pf evs mounted)) \<le> 1"
    by (rule in_flight_le_1 [OF call_inv_run [OF call_inv_mounted]])
  from a b c d e g show ?thesis by blast
qed

text \<open>
  Claim C2 as stated fails: a cycle is started at time 0 with a delay of 200/3 ms and its
  call ends at 1000 ms. At 67 ms no timer is armed and no second call is started; the
  timer is armed when the call ends, for 1000 + 200/3 ms, and the second call starts only
  then.
\<close>

theorem scheduler_awaits_counterexample:
  "pc (loops (run phone [Toggle 0] mounted) ! 1) = Awaiting 0 (200 / 3)
   \<and> run phone [Toggle 0, TimerFired 1 67] mounted = run phone [Toggle 0] mounted
   \<and> map phase (calls (run phone [Toggle 0, TimerFired 1 67, Captured 0 (Inr vga) 100,
        TimerFired 1 500] mounted)) = [Fetching vga]
   \<and> pc (loops (run phone slow_cycle mounted) ! 1) = TimerArmed (1000 + 200 / 3)
   \<and> map phase (calls (run phone slow_cycle mounted)) = [Settled]
   \<and> map phase (calls (run phone (slow_cycle @ [TimerFired 1 1067]) mounted))
       = [Settled, Capturing]"
  by (simp add: slow_cycle_def model_defs)

theorem scheduler_awaits_witness:
  "pc (loops (toggle phone 0 mounted) ! 1) = Awaiting 0 (200 / 3)
   \<and> step phone (TimerFired 1 67) (toggle phone 0 mounted) = toggle phone 0 mounted
   \<and> pc (loops (finish 0 1000 (\<lambda>s. s) (toggle phone 0 mounted)) ! 1) = TimerArmed (1000 + 200 / 3)
   \<and> lastFrameTime (loops (finish 0 1000 (\<lambda>s. s) (toggle phone 0 mounted)) ! 1) = 1000
   \<and> real_of_int 1001 < 1000 + 200 / 3
   \<and> step phone (TimerFired 1 1001) (finish 0 1000 (\<lambda>s. s) (toggle phone 0 mounted))
       = finish 0 1000 (\<lambda>s. s) (toggle phone 0 mounted)
   \<and> pc (loops (loop_enter phone 1 1067 (finish 0 1000 (\<lambda>s. s) (toggle phone 0 mounted))) ! 1)
       = Awaiting 1 0"
proof -
  let ?a = "toggle phone 0 mounted"
  let ?b = "finish 0 1000 (\<lambda>s. s) ?a"
  have ha: "1 < length (loops ?a)" "pc (loops ?a ! 1) = Awaiting 0 (200 / 3)"
    "awaited_by (calls ?a ! 0) = Some 1" "isActive (loops ?a ! 1)"
    "r_isAutoScan (l_render (loops ?a ! 1))"
    by (simp_all add: toggled_on auto_render_def)
  from ha scheduler_awaits [of 1 ?a phone 0 0 "200 / 3" 67 0 1000 "\<lambda>s. s" "[]"]
  have r1: "step phone (TimerFired 1 67) ?a = ?a"
    "pc (loops ?b ! 1) = TimerArmed (1000 + 200 / 3)"
    "lastFrameTime (loops ?b ! 1) = 1000"
    by simp_all
  have cam: "cameraRef phone" by (simp add: phone_def)
  have hb: "1 < length (loops ?b)" "isActive (loops ?b ! 1)"
    "r_isAutoScan (l_render (loops ?b ! 1))" "length (calls ?b) = 1"
    by (simp_all add: finish_def loop_resume_def toggled_on auto_render_def Let_def)
  have lt: "real_of_int 1001 < 1000 + 200 / 3" by simp
  from hb cam r1 lt scheduler_awaits [of 1 ?b phone 1067 0 0 1001 "1000 + 200 / 3" 0 "\<lambda>s. s" "[]"]
  have r2: "step phone (TimerFired 1 1001) ?b = ?b"
    "pc (loops (loop_enter phone 1 1067 ?b) ! 1) = Awaiting 1 0"
    by (simp_all add: targetInterval_def)
  from ha r1 r2 lt show ?thesis by simp
qed

lemma auto_pending_state:
  "length (calls (run phone auto_pending mounted)) = 1"
  "phase (calls (run phone auto_pending mounted) ! 0) = Parsing vga (Inr detection)"
  "awaited_by (calls (run phone auto_pending mounted) ! 0) = Some 1"
  "length (loops (run phone auto_pending mounted)) = 3"
  "pc (loops (run phone auto_pending mounted) ! 1) = Awaiting 0 (200 / 3)"
  "\<not> isActive (loops (run phone auto_pending mounted) ! 1)"
  "\<not> isAutoScan (ui (run phone auto_pending mounted))"
  by (simp_all add: auto_pending_def model_defs)

lemma timer_pending_state:
  "length (loops (run phone timer_pending mounted)) = 3"
  "pc (loops (run phone timer_pending mounted) ! 1) = TimerArmed (40 + 200 / 3)"
  "\<not> isActive (loops (run phone timer_pending mounted) ! 1)"
  by (simp_all add: timer_pending_def model_defs)

theorem late_completion_witness:
  "isAutoScan (ui (toggle phone 0 mounted))
   \<and> \<not> isAutoScan (ui (step phone (Toggle 20) (toggle phone 0 mounted)))
   \<and> calls (step phone (Toggle 20) (toggle phone 0 mounted)) = calls (toggle phone 0 mounted)
   \<and> \<not> isActive (loops (step phone (Toggle 20) (toggle phone 0 mounted)) ! 1)
   \<and> pc (loops (run phone timer_pending mounted) ! 1) = TimerArmed (40 + 200 / 3)
   \<and> pc (loops (step phone (TimerFired 1 200) (run phone timer_pending mounted)) ! 1) = Finished
   \<and> calls (step phone (TimerFired 1 200) (run phone timer_pending mounted))
       = calls (run phone timer_pending mounted)
   \<and> pc (loops (finish 0 40 (\<lambda>s. s) (run phone auto_pending mounted)) ! 1) = Finished
   \<and> \<not> isAutoScan (ui (run phone auto_pending mounted))
   \<and> result (ui (step phone (Parsed 0 40 0.5) (run phone auto_pending mounted))) = Some tiger
   \<and> activeBox (ui (step phone (Parsed 0 40 0.5) (run phone auto_pending mounted)))
       = Some \<lparr>box = [Num (- 340), Num 400, Num 60, Num 800], box_label = ''tiger''\<rparr>"
proof -
  let ?a = "toggle phone 0 mounted"
  let ?t = "run phone timer_pending mounted"
  let ?p = "run phone auto_pending mounted"
  have ha: "isAutoScan (ui ?a)" "loops ?a \<noteq> []" "length (loops ?a) = 2"
    by (simp_all add: toggled_on)
  from ha late_completion [where sys = ?a and pf = phone and now = 20]
  have r1: "\<not> isAutoScan (ui (step phone (Toggle 20) ?a))"
    "calls (step phone (Toggle 20) ?a) = calls ?a"
    "\<not> isActive (loops (step phone (Toggle 20) ?a) ! 1)"
    by simp_all
  have le: "40 + 200 / 3 \<le> real_of_int 200" by simp
  from timer_pending_state le
    late_completion [where sys = ?t and pf = phone and now = 200 and j = 1
      and due = "40 + 200 / 3"]
  have r2: "pc (loops (step phone (TimerFired 1 200) ?t) ! 1) = Finished"
    "calls (step phone (TimerFired 1 200) ?t) = calls ?t"
    by simp_all
  have md: "\<not> skipped detection" "best_match detection = Some tiger"
    "bbox tiger = Some [100, 100, 200, 200]" "label tiger = ''tiger''"
    by (simp_all add: detection_def tiger_def)
  have sb: "scaledBox phone vga [100, 100, 200, 200] = [Num (- 340), Num 400, Num 60, Num 800]"
    by (simp add: scaledBox_def element_def scale_def offsetX_def offsetY_def scaledWidth_def
        scaledHeight_def js_sub_def vga_def phone_def)
  from auto_pending_state md
    late_completion [where sys = ?p and pf = phone and now = 40 and j = 1 and i = 0
      and d = "200 / 3" and f = "\<lambda>s. s" and p = vga and dt = detection and m = tiger
      and b = "[100, 100, 200, 200]" and rnd = "0.5"]
  have r3: "pc (loops (finish 0 40 (\<lambda>s. s) ?p) ! 1) = Finished"
    "result (ui (step phone (Parsed 0 40 0.5) ?p)) = Some tiger"
    "activeBox (ui (step phone (Parsed 0 40 0.5) ?p))
       = Some \<lparr>box = scaledBox phone vga [100, 100, 200, 200], box_label = ''tiger''\<rparr>"
    by simp_all
  from ha r1 timer_pending_state r2 r3 auto_pending_state(7) sb show ?thesis by simp
qed

end
